theory Spec2Isabelle
  imports Main "HOL-Library.Sublist" "HOL-Library.Monad_Syntax"
begin

section \<open>Strings of the host language\<close>

text \<open>
  Source strings are modelled as \<^typ>\<open>string\<close>: lists of 8-bit characters, so the
  model covers the contents whose code units lie below 256. \<open>s.split(sep)\<close> with a
  one-character separator always returns at least one part (so the first branch of the
  inner case distinction of \<open>js_split\<close> is never taken); \<open>parts.join(sep)\<close> of the
  empty array is the empty string.
\<close>

fun js_split :: "char \<Rightarrow> string \<Rightarrow> string list" where
  "js_split sep [] = [[]]"
| "js_split sep (c # cs) =
     (if c = sep then [] # js_split sep cs
      else (case js_split sep cs of
              [] \<Rightarrow> [[c]]
            | p # ps \<Rightarrow> (c # p) # ps))"

fun js_join :: "string \<Rightarrow> string list \<Rightarrow> string" where
  "js_join sep [] = []"
| "js_join sep [p] = p"
| "js_join sep (p # q # ps) = p @ sep @ js_join sep (q # ps)"

definition startsWith :: "string \<Rightarrow> string \<Rightarrow> bool" where
  "startsWith s t = prefix t s"

definition endsWith :: "string \<Rightarrow> string \<Rightarrow> bool" where
  "endsWith s t = suffix t s"

section \<open>Regular expressions\<close>

text \<open>
  The regular expressions of \<open>dependencyService.ts\<close> use literals, character classes,
  greedy \<open>+\<close> and lazy \<open>*?\<close> over a class, sequence, alternation, capture groups,
  \<open>^\<close> under the \<open>m\<close> flag and \<open>$\<close> without it. The matcher is the backtracking
  matcher of the language standard, as a list of successes in priority order: the head of
  the list is the match the engine reports.
\<close>

datatype regex =
    Lit string
  | Cls "char \<Rightarrow> bool"
  | PlusCls "char \<Rightarrow> bool"
  | LazyStarCls "char \<Rightarrow> bool"
  | Seq regex regex
  | Alt regex regex
  | Grp nat regex
  | BolM
  | Eol

fun seqs :: "regex list \<Rightarrow> regex" where
  "seqs [] = Lit []"
| "seqs [r] = r"
| "seqs (r # rs) = Seq r (seqs rs)"

text \<open>Captures: the groups set so far, latest first. A group that is not set reads as
  the empty string: the source reads a group either on the only path of its pattern
  (\<open>match[1]\<close> of the Python patterns) or through \<open>||\<close>, for which \<open>undefined\<close> and
  the empty string are the same.\<close>

type_synonym caps = "(nat \<times> string) list"

definition group :: "caps \<Rightarrow> nat \<Rightarrow> string" where
  "group m i = (case map_of m i of None \<Rightarrow> [] | Some g \<Rightarrow> g)"

text \<open>\<open>\s\<close> below code unit 256: tab, line feed, vertical tab, form feed, carriage
  return, space and no-break space. Line terminators below 256: line feed and carriage
  return.\<close>

definition is_space :: "char \<Rightarrow> bool" where
  "is_space c = (c \<in> set [CHR 0x09, CHR 0x0A, CHR 0x0B, CHR 0x0C, CHR 0x0D, CHR 0x20, CHR 0xA0])"

definition non_space :: "char \<Rightarrow> bool" where
  "non_space c = (\<not> is_space c)"

definition is_line_terminator :: "char \<Rightarrow> bool" where
  "is_line_terminator c = (c \<in> set [CHR 0x0A, CHR 0x0D])"

fun rmatch :: "regex \<Rightarrow> string \<Rightarrow> nat \<times> caps \<Rightarrow> (nat \<times> caps) list" where
  "rmatch (Lit l) s (p, c) =
     (if take (length l) (drop p s) = l then [(p + length l, c)] else [])"
| "rmatch (Cls P) s (p, c) =
     (if p < length s \<and> P (s ! p) then [(Suc p, c)] else [])"
| "rmatch (PlusCls P) s (p, c) =
     map (\<lambda>k. (p + k, c)) (rev [1 ..< Suc (length (takeWhile P (drop p s)))])"
| "rmatch (LazyStarCls P) s (p, c) =
     map (\<lambda>k. (p + k, c)) [0 ..< Suc (length (takeWhile P (drop p s)))]"
| "rmatch (Seq a b) s st = concat (map (rmatch b s) (rmatch a s st))"
| "rmatch (Alt a b) s st = rmatch a s st @ rmatch b s st"
| "rmatch (Grp i r) s (p, c) =
     map (\<lambda>(e, c'). (e, (i, take (e - p) (drop p s)) # c')) (rmatch r s (p, c))"
| "rmatch BolM s (p, c) =
     (if p = 0 \<or> is_line_terminator (s ! (p - 1)) then [(p, c)] else [])"
| "rmatch Eol s (p, c) = (if p = length s then [(p, c)] else [])"

text \<open>\<open>regex.exec(s)\<close> of a global pattern whose \<open>lastIndex\<close> is \<open>i\<close>: the first
  position from \<open>i\<close> on, up to the length of \<open>s\<close>, at which the pattern matches. The
  result is the match's index, its end (the new \<open>lastIndex\<close>) and its captures;
  \<open>None\<close> is \<open>null\<close>.\<close>

fun first_match :: "regex \<Rightarrow> string \<Rightarrow> nat list \<Rightarrow> (nat \<times> nat \<times> caps) option" where
  "first_match r s [] = None"
| "first_match r s (p # ps) =
     (case rmatch r s (p, []) of
        [] \<Rightarrow> first_match r s ps
      | (e, m) # _ \<Rightarrow> Some (p, e, m))"

definition exec :: "regex \<Rightarrow> string \<Rightarrow> nat \<Rightarrow> (nat \<times> nat \<times> caps) option" where
  "exec r s lastIndex = first_match r s [lastIndex ..< Suc (length s)]"

text \<open>\<open>while ((match = regex.exec(content)) !== null) imports.push(pick(match))\<close>.
  The loop runs as long as \<open>exec\<close> finds a match; a pattern that matches the empty
  string would keep \<open>lastIndex\<close> where it is and never leave the loop, so the loop is a
  partial function and \<open>None\<close> stands for not returning.\<close>

partial_function (option) exec_loop ::
  "regex \<Rightarrow> (caps \<Rightarrow> string) \<Rightarrow> string \<Rightarrow> nat \<Rightarrow> string list \<Rightarrow> string list option" where
  "exec_loop r pick s lastIndex imports =
     (case exec r s lastIndex of
        None \<Rightarrow> Some imports
      | Some (i, e, m) \<Rightarrow> exec_loop r pick s e (imports @ [pick m]))"

declare exec_loop.simps [code]

section \<open>Import extractors\<close>

definition pyFromRegex :: regex where
  "pyFromRegex =
     seqs [Lit ''from'', PlusCls is_space, Grp 1 (PlusCls non_space), PlusCls is_space,
           Lit ''import'']"

definition pyImportRegex :: regex where
  "pyImportRegex = seqs [BolM, Lit ''import'', PlusCls is_space, Grp 1 (PlusCls non_space)]"

definition parsePythonImports :: "string \<Rightarrow> string list option" where
  "parsePythonImports content =
     do {
       imports \<leftarrow> exec_loop pyFromRegex (\<lambda>m. group m 1) content 0 [];
       exec_loop pyImportRegex (\<lambda>m. group m 1) content 0 imports
     }"


text \<open>\<open>fallbackRegexExtract\<close>: the pattern
  \<open>import\s+[\s\S]*?from\s+['"]([^'"]+)['"]|import\s+['"]([^'"]+)['"]\<close>, and
  \<open>match[1] || match[2]\<close> pushed for every match.\<close>

definition any_char :: "char \<Rightarrow> bool" where
  "any_char c = True"

definition is_quote :: "char \<Rightarrow> bool" where
  "is_quote c = (c = CHR 0x27 \<or> c = CHR 0x22)"

definition non_quote :: "char \<Rightarrow> bool" where
  "non_quote c = (\<not> is_quote c)"

definition fallbackRegex :: regex where
  "fallbackRegex =
     Alt (seqs [Lit ''import'', PlusCls is_space, LazyStarCls any_char, Lit ''from'',
                PlusCls is_space, Cls is_quote, Grp 1 (PlusCls non_quote), Cls is_quote])
         (seqs [Lit ''import'', PlusCls is_space, Cls is_quote, Grp 2 (PlusCls non_quote),
                Cls is_quote])"

definition js_or :: "string \<Rightarrow> string \<Rightarrow> string" where
  "js_or a b = (if a \<noteq> [] then a else b)"

definition fallbackRegexExtract :: "string \<Rightarrow> string list option" where
  "fallbackRegexExtract content =
     exec_loop fallbackRegex (\<lambda>m. js_or (group m 1) (group m 2)) content 0 []"

subsection \<open>The syntax tree of the compiler library\<close>

text \<open>
  \<open>ts.createSourceFile\<close> belongs to the TypeScript compiler, not to this repository:
  it is a parameter of the model, a function from the file name and the content to a
  syntax tree, or to the error it throws. A node carries what \<open>visit\<close> reads: its kind,
  its \<open>text\<close> (identifiers and string literals), its \<open>moduleSpecifier\<close>, the
  \<open>expression\<close> and \<open>arguments\<close> of a call, and the children \<open>ts.forEachChild\<close>
  passes to the callback, in its order.
\<close>

datatype syntax_kind =
  ImportDeclaration | ExportDeclaration | CallExpression | Identifier | StringLiteral
  | ImportKeyword | OtherKind

datatype node =
  Node syntax_kind string "node option" "node option" "node list" "node list"

fun kind :: "node \<Rightarrow> syntax_kind" where
  "kind (Node k t ms ex args ch) = k"

fun node_text :: "node \<Rightarrow> string" where
  "node_text (Node k t ms ex args ch) = t"

fun moduleSpecifier :: "node \<Rightarrow> node option" where
  "moduleSpecifier (Node k t ms ex args ch) = ms"

fun expression :: "node \<Rightarrow> node option" where
  "expression (Node k t ms ex args ch) = ex"

fun arguments :: "node \<Rightarrow> node list" where
  "arguments (Node k t ms ex args ch) = args"

datatype js_error = TypeError | Thrown string

type_synonym parser = "string \<Rightarrow> string \<Rightarrow> js_error + node"

text \<open>The body of \<open>visit\<close> before it descends: what one node adds to \<open>imports\<close>.
  Reading \<open>.kind\<close> of a call's missing \<open>expression\<close> throws a TypeError.\<close>

definition push_specifier :: "node \<Rightarrow> string list \<Rightarrow> string list" where
  "push_specifier n imports =
     (case moduleSpecifier n of
        None \<Rightarrow> imports
      | Some ms \<Rightarrow> if kind ms = StringLiteral then imports @ [node_text ms] else imports)"

definition push_first_argument :: "node \<Rightarrow> string list \<Rightarrow> string list" where
  "push_first_argument n imports =
     (case arguments n of
        [] \<Rightarrow> imports
      | a # _ \<Rightarrow> if kind a = StringLiteral then imports @ [node_text a] else imports)"

definition visit_node :: "node \<Rightarrow> string list \<Rightarrow> js_error + string list" where
  "visit_node n imports =
     (if kind n = ImportDeclaration then Inr (push_specifier n imports)
      else if kind n = ExportDeclaration then Inr (push_specifier n imports)
      else if kind n = CallExpression then
        (case expression n of
           None \<Rightarrow> Inl TypeError
         | Some ex \<Rightarrow>
             if kind ex = Identifier \<and> node_text ex = ''require''
             then Inr (push_first_argument n imports)
             else if kind ex = ImportKeyword then Inr (push_first_argument n imports)
             else Inr imports)
      else Inr imports)"

fun visit :: "node \<Rightarrow> string list \<Rightarrow> js_error + string list"
  and forEachChild :: "node list \<Rightarrow> string list \<Rightarrow> js_error + string list" where
  "visit (Node k t ms ex args ch) imports =
     (case visit_node (Node k t ms ex args ch) imports of
        Inl e \<Rightarrow> Inl e
      | Inr imports' \<Rightarrow> forEachChild ch imports')"
| "forEachChild [] imports = Inr imports"
| "forEachChild (c # cs) imports =
     (case visit c imports of
        Inl e \<Rightarrow> Inl e
      | Inr imports' \<Rightarrow> forEachChild cs imports')"

text \<open>The \<open>try\<close> block of \<open>parseJsTsImports\<close>: build the tree, walk it.\<close>

definition try_parse :: "parser \<Rightarrow> string \<Rightarrow> string \<Rightarrow> js_error + string list" where
  "try_parse createSourceFile content fileName =
     (case createSourceFile fileName content of
        Inl e \<Rightarrow> Inl e
      | Inr sourceFile \<Rightarrow> visit sourceFile [])"

definition parseJsTsImports :: "parser \<Rightarrow> string \<Rightarrow> string \<Rightarrow> string list option" where
  "parseJsTsImports createSourceFile content fileName =
     (case try_parse createSourceFile content fileName of
        Inl e \<Rightarrow> fallbackRegexExtract content
      | Inr imports \<Rightarrow> Some imports)"

section \<open>Path resolver\<close>

text \<open>A \<open>Set<string>\<close> keeps its elements in insertion order: it is the list of its
  elements, without repetition, in the order of their first insertion.\<close>

definition set_add :: "string list \<Rightarrow> string \<Rightarrow> string list" where
  "set_add s x = (if x \<in> set s then s else s @ [x])"

definition new_Set :: "string list \<Rightarrow> string list" where
  "new_Set xs = foldl set_add [] xs"

definition has :: "string list \<Rightarrow> string \<Rightarrow> bool" where
  "has s x = (x \<in> set s)"

text \<open>\<open>s.replace(regex, repl)\<close> of a pattern without the \<open>g\<close> flag replaces the
  first match.\<close>

definition js_replace :: "regex \<Rightarrow> string \<Rightarrow> string \<Rightarrow> string" where
  "js_replace r s repl =
     (case exec r s 0 of
        None \<Rightarrow> s
      | Some (i, e, m) \<Rightarrow> take i s @ repl @ drop e s)"

definition non_slash_dot :: "char \<Rightarrow> bool" where
  "non_slash_dot c = (c \<noteq> CHR ''/'' \<and> c \<noteq> CHR ''.'')"

definition extRegex :: regex where
  "extRegex = seqs [Lit ''.'', PlusCls non_slash_dot, Eol]"

text \<open>The loop over \<open>importParts\<close>, on the stack \<open>sourceDirParts\<close> (its top is the
  last element).\<close>

fun resolve_parts :: "string list \<Rightarrow> string list \<Rightarrow> string list" where
  "resolve_parts sourceDirParts [] = sourceDirParts"
| "resolve_parts sourceDirParts (part # parts) =
     (if part = ''.'' then resolve_parts sourceDirParts parts
      else if part = ''..'' then
        (if length sourceDirParts > 0 then resolve_parts (butlast sourceDirParts) parts
         else resolve_parts sourceDirParts parts)
      else resolve_parts (sourceDirParts @ [part]) parts)"

definition extensions :: "string list" where
  "extensions = [[], ''.ts'', ''.tsx'', ''.js'', ''.jsx'', ''/index.ts'', ''/index.tsx'']"

fun try_extensions :: "string \<Rightarrow> string list \<Rightarrow> string list \<Rightarrow> string option" where
  "try_extensions resolvedBase [] allFiles = None"
| "try_extensions resolvedBase (ext # exts) allFiles =
     (let candidate = resolvedBase @ ext
      in if has allFiles candidate then Some candidate
         else try_extensions resolvedBase exts allFiles)"

definition resolvedBase :: "string \<Rightarrow> string \<Rightarrow> string" where
  "resolvedBase sourceFile importPath =
     js_join ''/''
       (resolve_parts (butlast (js_split CHR ''/'' sourceFile)) (js_split CHR ''/'' importPath))"

definition resolveRelative :: "string \<Rightarrow> string \<Rightarrow> string list \<Rightarrow> string option" where
  "resolveRelative sourceFile importPath allFiles =
     (if startsWith importPath ''.''
      then try_extensions (resolvedBase sourceFile importPath) extensions allFiles
      else None)"

fun basename_match :: "string \<Rightarrow> string list \<Rightarrow> string option" where
  "basename_match importPath [] = None"
| "basename_match importPath (file # files) =
     (let fileNoExt = js_replace extRegex file []
      in if endsWith fileNoExt importPath \<or> endsWith fileNoExt (CHR ''/'' # importPath)
         then Some file
         else basename_match importPath files)"

definition resolveImport :: "string \<Rightarrow> string \<Rightarrow> string list \<Rightarrow> string option" where
  "resolveImport sourceFile importPath allFiles =
     (case resolveRelative sourceFile importPath allFiles of
        Some candidate \<Rightarrow> Some candidate
      | None \<Rightarrow>
          if has allFiles importPath then Some importPath
          else if last (js_split CHR ''/'' importPath) = [] then None
          else basename_match importPath allFiles)"

section \<open>Graph builder\<close>

text \<open>
  Modelled from the spec: the declarations of \<open>FileContext\<close> and
  \<open>DependencyGraphData\<close> (\<open>types.ts\<close> is not among the sources). A file carries the
  fields the sources read: \<open>id\<close> (read by the file tree only, here \<open>file_id\<close>),
  \<open>name\<close>, which holds the virtual path and is what the specification calls the id of
  the file, \<open>type\<close>, whose value \<open>'file'\<close> marks source code, and \<open>content\<close>. A node
  has the fields \<open>id\<close>, \<open>name\<close>, \<open>type\<close> and \<open>val\<close> the builder writes; a link has
  \<open>source\<close> and \<open>target\<close>.
\<close>

datatype file_type = File | Image | Log | Metric | Issue

record FileContext =
  file_id :: string
  name :: string
  type :: file_type
  content :: string

record GraphNode =
  node_id :: string
  node_name :: string
  node_type :: file_type
  val :: nat

record GraphLink =
  source :: string
  target :: string

definition jsTsRegex :: regex where
  "jsTsRegex =
     seqs [Lit ''.'', Grp 1 (Alt (Lit ''ts'') (Alt (Lit ''tsx'') (Alt (Lit ''js'') (Lit ''jsx'')))),
           Eol]"

definition js_match :: "string \<Rightarrow> regex \<Rightarrow> bool" where
  "js_match s r = (exec r s 0 \<noteq> None)"

text \<open>\<open>imports.forEach\<close>: \<open>if (target)\<close> is false for \<open>undefined\<close> and for the
  empty string.\<close>

fun link_imports ::
  "string \<Rightarrow> string list \<Rightarrow> string list \<Rightarrow> GraphLink list \<Rightarrow> GraphLink list" where
  "link_imports fileName filePaths [] links = links"
| "link_imports fileName filePaths (imp # imps) links =
     (case resolveImport fileName imp filePaths of
        None \<Rightarrow> link_imports fileName filePaths imps links
      | Some tgt \<Rightarrow>
          if tgt \<noteq> []
          then link_imports fileName filePaths imps
                 (links @ [\<lparr>source = fileName, target = tgt\<rparr>])
          else link_imports fileName filePaths imps links)"

definition extract_imports :: "parser \<Rightarrow> FileContext \<Rightarrow> string list option" where
  "extract_imports createSourceFile file =
     (if js_match (name file) jsTsRegex
      then parseJsTsImports createSourceFile (content file) (name file)
      else if endsWith (name file) ''.py'' then parsePythonImports (content file)
      else Some [])"

fun link_files ::
  "parser \<Rightarrow> string list \<Rightarrow> FileContext list \<Rightarrow> GraphLink list \<Rightarrow> GraphLink list option" where
  "link_files createSourceFile filePaths [] links = Some links"
| "link_files createSourceFile filePaths (file # files) links =
     (if type file = File then
        do {
          imports \<leftarrow> extract_imports createSourceFile file;
          link_files createSourceFile filePaths files
            (link_imports (name file) filePaths imports links)
        }
      else link_files createSourceFile filePaths files links)"

record DependencyGraphData =
  nodes :: "GraphNode list"
  links :: "GraphLink list"

definition generateDependencyGraph ::
  "parser \<Rightarrow> FileContext list \<Rightarrow> DependencyGraphData option" where
  "generateDependencyGraph createSourceFile files =
     (let nodes = map (\<lambda>f. \<lparr>node_id = name f, node_name = name f, node_type = type f, val = 1\<rparr>) files;
          filePaths = new_Set (map name files)
      in do {
           links \<leftarrow> link_files createSourceFile filePaths files [];
           Some \<lparr>nodes = nodes, links = links\<rparr>
         })"

section \<open>Notions used in the statements\<close>

text \<open>The least number of characters a match of a pattern consumes.\<close>

fun min_len :: "regex \<Rightarrow> nat" where
  "min_len (Lit l) = length l"
| "min_len (Cls P) = 1"
| "min_len (PlusCls P) = 1"
| "min_len (LazyStarCls P) = 0"
| "min_len (Seq a b) = min_len a + min_len b"
| "min_len (Alt a b) = min (min_len a) (min_len b)"
| "min_len (Grp i r) = min_len r"
| "min_len BolM = 0"
| "min_len Eol = 0"

text \<open>Every match of a pattern in a string, in text order: the positions are tried from
  left to right, a position inside the previous match is skipped, and a position where the
  pattern matches contributes the match the engine reports there.\<close>

fun scan :: "regex \<Rightarrow> string \<Rightarrow> nat list \<Rightarrow> nat \<Rightarrow> (nat \<times> nat \<times> caps) list" where
  "scan r s [] from = []"
| "scan r s (p # ps) from =
     (if p < from then scan r s ps from
      else (case rmatch r s (p, []) of
              [] \<Rightarrow> scan r s ps from
            | (e, m) # _ \<Rightarrow> (p, e, m) # scan r s ps e))"

definition all_matches :: "regex \<Rightarrow> string \<Rightarrow> (nat \<times> nat \<times> caps) list" where
  "all_matches r s = scan r s [0 ..< Suc (length s)] 0"

definition capture :: "nat \<Rightarrow> nat \<times> nat \<times> caps \<Rightarrow> string" where
  "capture i x = group (snd (snd x)) i"

text \<open>The longest run of non-whitespace characters of \<open>c\<close> that starts after the
  whitespace following position \<open>q\<close>.\<close>

definition module_run :: "string \<Rightarrow> nat \<Rightarrow> string" where
  "module_run c q = takeWhile non_space (dropWhile is_space (drop q c))"

text \<open>The edges one file contributes: one per extracted import that resolves to a
  target the builder accepts, in extraction order.\<close>

definition file_links :: "parser \<Rightarrow> string list \<Rightarrow> FileContext \<Rightarrow> GraphLink list" where
  "file_links createSourceFile filePaths file =
     (if type file = File
      then (case extract_imports createSourceFile file of
              None \<Rightarrow> []
            | Some imports \<Rightarrow> link_imports (name file) filePaths imports [])
      else [])"

subsection \<open>The resolver in the words of the specification\<close>

text \<open>Relative resolution as the specification words it: the segments of the import
  are folded against the directory stack of the source; \<open>.\<close> is skipped, \<open>..\<close> pops one
  segment (nothing on the empty stack), any other segment is pushed. The base path is the
  joined stack, and the candidates are the base path with each suffix, in the stated
  order.\<close>

definition spec_fold_segment :: "string list \<Rightarrow> string \<Rightarrow> string list" where
  "spec_fold_segment stack seg =
     (if seg = ''.'' then stack
      else if seg = ''..'' then (if stack = [] then [] else butlast stack)
      else stack @ [seg])"

definition spec_base :: "string \<Rightarrow> string \<Rightarrow> string" where
  "spec_base sourceId rawImport =
     js_join ''/''
       (foldl spec_fold_segment (butlast (js_split CHR ''/'' sourceId))
          (js_split CHR ''/'' rawImport))"

definition spec_candidates :: "string \<Rightarrow> string list" where
  "spec_candidates base =
     [base, base @ ''.ts'', base @ ''.tsx'', base @ ''.js'', base @ ''.jsx'',
      base @ ''/index.ts'', base @ ''/index.tsx'']"

text \<open>The extension-stripped form as the specification words it: the id with its
  trailing \<open>.ext\<close> removed, where \<open>ext\<close> is a run of characters other than dot and
  slash after the last dot. \<open>ext\<close> is the longest such run at the end of the id, and
  \<open>stem\<close> is what stands before it.\<close>

definition spec_strip_ext :: "string \<Rightarrow> string" where
  "spec_strip_ext ident =
     (let ext = rev (takeWhile non_slash_dot (rev ident));
          stem = rev (dropWhile non_slash_dot (rev ident))
      in if ext \<noteq> [] \<and> stem \<noteq> [] \<and> last stem = CHR ''.'' then butlast stem else ident)"

definition spec_basename_hit :: "string \<Rightarrow> string \<Rightarrow> bool" where
  "spec_basename_hit rawImport ident =
     (endsWith (spec_strip_ext ident) rawImport
      \<or> endsWith (spec_strip_ext ident) (CHR ''/'' # rawImport))"

text \<open>The positions at which the extension pattern matches: a dot
  followed, up to the end of the string, by one or more characters other than dot and
  slash.\<close>

definition ext_at :: "string \<Rightarrow> nat \<Rightarrow> bool" where
  "ext_at s p = (p < length s \<and> s ! p = CHR ''.'' \<and> Suc p < length s
                 \<and> (\<forall>c \<in> set (drop (Suc p) s). non_slash_dot c))"

section \<open>Basic facts\<close>

lemma js_split_nonempty: "js_split sep s \<noteq> []"
  by (induction s) (auto split: list.splits)

subsection \<open>The matcher and the loops over its matches\<close>

lemma take_eq_length: "take (length l) xs = l \<Longrightarrow> length l \<le> length xs"
proof -
  assume "take (length l) xs = l"
  then have "length (take (length l) xs) = length l" by simp
  then show ?thesis by simp
qed

lemma takeWhile_drop_le: "length (takeWhile P (drop p s)) \<le> length s - p"
  by (metis length_takeWhile_le length_drop)

text \<open>A match starting at \<open>p\<close> ends inside the string and consumes at least
  \<open>min_len r\<close> characters.\<close>

lemma rmatch_bounds:
  "(e, m) \<in> set (rmatch r s (p, c)) \<Longrightarrow> p \<le> length s \<Longrightarrow> p + min_len r \<le> e \<and> e \<le> length s"
proof (induction r arbitrary: p c e m)
  case (Lit l)
  from Lit have eq: "take (length l) (drop p s) = l" and e: "e = p + length l"
    by (auto split: if_splits)
  from take_eq_length[OF eq] have "length l \<le> length s - p" by simp
  with e Lit.prems(2) show ?case by simp
next
  case (Cls P)
  then show ?case by (auto split: if_splits)
next
  case (PlusCls P)
  from PlusCls.prems(1) obtain k where k: "e = p + k" "1 \<le> k" "k \<le> length (takeWhile P (drop p s))"
    by auto
  with takeWhile_drop_le[of P p s] PlusCls.prems(2) show ?case by simp
next
  case (LazyStarCls P)
  from LazyStarCls.prems(1) obtain k where k: "e = p + k" "k \<le> length (takeWhile P (drop p s))"
    by auto
  with takeWhile_drop_le[of P p s] LazyStarCls.prems(2) show ?case by simp
next
  case (Seq a b)
  from Seq.prems(1) obtain e1 m1 where 1: "(e1, m1) \<in> set (rmatch a s (p, c))"
    and 2: "(e, m) \<in> set (rmatch b s (e1, m1))" by auto
  from Seq.IH(1)[OF 1 Seq.prems(2)] have 3: "p + min_len a \<le> e1" "e1 \<le> length s" by simp_all
  from Seq.IH(2)[OF 2 3(2)] have "e1 + min_len b \<le> e" "e \<le> length s" by simp_all
  with 3 show ?case by simp
next
  case (Alt a b)
  from Alt.prems(1) have "(e, m) \<in> set (rmatch a s (p, c)) \<or> (e, m) \<in> set (rmatch b s (p, c))"
    by simp
  then show ?case
  proof
    assume "(e, m) \<in> set (rmatch a s (p, c))"
    from Alt.IH(1)[OF this Alt.prems(2)] show ?thesis by (simp add: min_def)
  next
    assume "(e, m) \<in> set (rmatch b s (p, c))"
    from Alt.IH(2)[OF this Alt.prems(2)] show ?thesis by (simp add: min_def)
  qed
next
  case (Grp i r)
  from Grp.prems(1) obtain m' where "(e, m') \<in> set (rmatch r s (p, c))" by auto
  from Grp.IH[OF this Grp.prems(2)] show ?case by simp
next
  case BolM
  then show ?case by (auto split: if_splits)
next
  case Eol
  then show ?case by (auto split: if_splits)
qed

lemma first_match_None:
  "first_match r s ps = None \<longleftrightarrow> (\<forall>p \<in> set ps. rmatch r s (p, []) = [])"
  by (induction ps) (auto split: list.splits)

lemma first_match_Some:
  "first_match r s ps = Some (i, e, m) \<Longrightarrow>
     \<exists>ps1 ps2. ps = ps1 @ i # ps2 \<and> (\<forall>p \<in> set ps1. rmatch r s (p, []) = [])
        \<and> rmatch r s (i, []) \<noteq> [] \<and> hd (rmatch r s (i, [])) = (e, m)"
proof (induction ps)
  case Nil
  then show ?case by simp
next
  case (Cons p ps)
  show ?case
  proof (cases "rmatch r s (p, [])")
    case Nil
    with Cons.prems have "first_match r s ps = Some (i, e, m)" by simp
    from Cons.IH[OF this] obtain ps1 ps2 where
      "ps = ps1 @ i # ps2" "\<forall>p \<in> set ps1. rmatch r s (p, []) = []"
      "rmatch r s (i, []) \<noteq> []" "hd (rmatch r s (i, [])) = (e, m)" by blast
    with Nil have "p # ps = (p # ps1) @ i # ps2 \<and> (\<forall>q \<in> set (p # ps1). rmatch r s (q, []) = [])
        \<and> rmatch r s (i, []) \<noteq> [] \<and> hd (rmatch r s (i, [])) = (e, m)" by simp
    then show ?thesis by blast
  next
    case (Cons x xs)
    with Cons.prems have "p = i" "x = (e, m)" by (auto split: prod.splits)
    with Cons have "p # ps = [] @ i # ps \<and> (\<forall>q \<in> set []. rmatch r s (q, []) = [])
        \<and> rmatch r s (i, []) \<noteq> [] \<and> hd (rmatch r s (i, [])) = (e, m)" by simp
    then show ?thesis by blast
  qed
qed

lemma upt_split_at:
  assumes "[i ..< n] = ps1 @ j # ps2"
  shows "ps1 = [i ..< j] \<and> ps2 = [Suc j ..< n] \<and> i \<le> j \<and> j < n"
proof -
  have j: "j \<in> set [i ..< n]" using assms by simp
  then have ij: "i \<le> j" "j < n" by simp_all
  then have "[i ..< n] = [i ..< j] @ j # [Suc j ..< n]"
    by (metis le_add_diff_inverse upt_add_eq_append upt_conv_Cons less_imp_le_nat Suc_leI upt_rec)
  with assms have eq: "ps1 @ j # ps2 = [i ..< j] @ j # [Suc j ..< n]" by simp
  have d: "distinct (ps1 @ j # ps2)" using assms by (metis distinct_upt)
  have "length ps1 = length [i ..< j]"
  proof -
    have "(ps1 @ j # ps2) ! length ps1 = j" by simp
    moreover have "([i ..< j] @ j # [Suc j ..< n]) ! length [i ..< j] = j" by (simp add: nth_append)
    ultimately show ?thesis using d eq
      by (metis distinct_conv_nth length_append_singleton append.assoc append_Cons append_Nil nth_eq_iff_index_eq length_append less_add_Suc1 add_Suc_right length_Cons)
  qed
  with eq ij show ?thesis by auto
qed

lemma exec_None:
  "exec r s i = None \<longleftrightarrow> (\<forall>p. i \<le> p \<and> p \<le> length s \<longrightarrow> rmatch r s (p, []) = [])"
  by (auto simp: exec_def first_match_None)

lemma exec_Some:
  assumes "exec r s i = Some (j, e, m)"
  shows "i \<le> j \<and> j \<le> length s \<and> (\<forall>p \<in> set [i ..< j]. rmatch r s (p, []) = [])
     \<and> rmatch r s (j, []) \<noteq> [] \<and> hd (rmatch r s (j, [])) = (e, m)
     \<and> j + min_len r \<le> e \<and> e \<le> length s"
proof -
  from assms have "first_match r s [i ..< Suc (length s)] = Some (j, e, m)" by (simp add: exec_def)
  from first_match_Some[OF this] obtain ps1 ps2 where
    sp: "[i ..< Suc (length s)] = ps1 @ j # ps2" and no: "\<forall>p \<in> set ps1. rmatch r s (p, []) = []"
    and ne: "rmatch r s (j, []) \<noteq> []" and hd: "hd (rmatch r s (j, [])) = (e, m)" by blast
  from upt_split_at[OF sp] have ps1: "ps1 = [i ..< j]" and ij: "i \<le> j" "j \<le> length s" by simp_all
  from ne hd have "(e, m) \<in> set (rmatch r s (j, []))" by (metis hd_in_set)
  from rmatch_bounds[OF this ij(2)] have "j + min_len r \<le> e" "e \<le> length s" by simp_all
  with no ps1 ij ne hd show ?thesis by simp
qed

lemma scan_skip: "\<forall>p \<in> set ps. p < f \<Longrightarrow> scan r s (ps @ qs) f = scan r s qs f"
  by (induction ps) auto

lemma scan_nomatch:
  "\<forall>p \<in> set ps. rmatch r s (p, []) = [] \<Longrightarrow> scan r s (ps @ qs) f = scan r s qs f"
  by (induction ps) auto

lemma exec_loop_scan:
  assumes pos: "0 < min_len r"
  shows "i \<le> Suc (length s) \<Longrightarrow>
    exec_loop r pick s i acc =
      Some (acc @ map (\<lambda>x. pick (snd (snd x))) (scan r s [i ..< Suc (length s)] i))"
proof (induction "Suc (length s) - i" arbitrary: i acc rule: less_induct)
  case less
  show ?case
  proof (cases "exec r s i")
    case None
    then have "\<forall>p \<in> set [i ..< Suc (length s)]. rmatch r s (p, []) = []"
      by (auto simp: exec_None)
    from scan_nomatch[OF this, of "[]" i] have "scan r s [i ..< Suc (length s)] i = []" by simp
    with None show ?thesis by (subst exec_loop.simps) simp
  next
    case (Some x)
    obtain j e m where x: "x = (j, e, m)" by (cases x) auto
    from exec_Some[OF Some[unfolded x]] have
      ij: "i \<le> j" "j \<le> length s" and no: "\<forall>p \<in> set [i ..< j]. rmatch r s (p, []) = []"
      and ne: "rmatch r s (j, []) \<noteq> []" and hd: "hd (rmatch r s (j, [])) = (e, m)"
      and e: "j + min_len r \<le> e" "e \<le> length s" by simp_all
    from e pos have je: "Suc j \<le> e" by simp
    have split1: "[i ..< Suc (length s)] = [i ..< j] @ j # [Suc j ..< Suc (length s)]"
      using ij by (metis le_imp_less_Suc upt_conv_Cons upt_add_eq_append le_add_diff_inverse less_imp_le_nat le_Suc_eq)
    have split2: "[Suc j ..< Suc (length s)] = [Suc j ..< e] @ [e ..< Suc (length s)]"
      using je e(2) by (metis le_Suc_eq le_add_diff_inverse upt_add_eq_append)
    obtain rest where hdm: "rmatch r s (j, []) = (e, m) # rest"
      using ne hd by (cases "rmatch r s (j, [])") auto
    have "scan r s [i ..< Suc (length s)] i = scan r s (j # [Suc j ..< Suc (length s)]) i"
      unfolding split1 by (rule scan_nomatch[OF no])
    also have "\<dots> = (j, e, m) # scan r s [Suc j ..< Suc (length s)] e"
      using ij hdm by simp
    also have "scan r s [Suc j ..< Suc (length s)] e = scan r s [e ..< Suc (length s)] e"
      unfolding split2 by (rule scan_skip) simp
    finally have sc: "scan r s [i ..< Suc (length s)] i = (j, e, m) # scan r s [e ..< Suc (length s)] e" .
    have "Suc (length s) - e < Suc (length s) - i" using je ij e by simp
    from less.hyps[OF this, of "acc @ [pick m]"] e
    have "exec_loop r pick s e (acc @ [pick m]) =
            Some ((acc @ [pick m]) @ map (\<lambda>x. pick (snd (snd x))) (scan r s [e ..< Suc (length s)] e))"
      by simp
    with Some x sc show ?thesis by (subst exec_loop.simps) simp
  qed
qed

lemma exec_loop_all_matches:
  "0 < min_len r \<Longrightarrow>
   exec_loop r pick s 0 acc = Some (acc @ map (\<lambda>x. pick (snd (snd x))) (all_matches r s))"
  unfolding all_matches_def by (rule exec_loop_scan) simp_all

lemma min_len_pyFromRegex: "0 < min_len pyFromRegex"
  by (simp add: pyFromRegex_def)

lemma min_len_pyImportRegex: "0 < min_len pyImportRegex"
  by (simp add: pyImportRegex_def)

lemma min_len_fallbackRegex: "0 < min_len fallbackRegex"
  by (simp add: fallbackRegex_def)

lemma parsePythonImports_all_matches:
  "parsePythonImports c =
     Some (map (capture 1) (all_matches pyFromRegex c) @ map (capture 1) (all_matches pyImportRegex c))"
  by (simp add: parsePythonImports_def exec_loop_all_matches min_len_pyFromRegex
        min_len_pyImportRegex capture_def)

lemma fallbackRegexExtract_all_matches:
  "fallbackRegexExtract c =
     Some (map (\<lambda>x. js_or (capture 1 x) (capture 2 x)) (all_matches fallbackRegex c))"
  using exec_loop_all_matches[OF min_len_fallbackRegex, of "\<lambda>m. js_or (group m 1) (group m 2)" c "[]"]
  by (simp add: fallbackRegexExtract_def capture_def)

lemma scan_starts: "fst ` set (scan r s ps f) \<subseteq> set ps"
proof (induction ps arbitrary: f)
  case Nil
  then show ?case by simp
next
  case (Cons p ps)
  show ?case
  proof (cases "rmatch r s (p, [])")
    case Nil
    with Cons.IH[of f] show ?thesis by auto
  next
    case (Cons x xs)
    obtain e m where "x = (e, m)" by (cases x) auto
    with Cons Cons.IH[of f] Cons.IH[of e] show ?thesis by auto
  qed
qed

lemma scan_sorted:
  "sorted_wrt (<) ps \<Longrightarrow> sorted_wrt (<) (map fst (scan r s ps f))"
proof (induction ps arbitrary: f)
  case Nil
  then show ?case by simp
next
  case (Cons p ps)
  from Cons.prems have sp: "sorted_wrt (<) ps" and lt: "\<forall>q \<in> set ps. p < q" by simp_all
  show ?case
  proof (cases "rmatch r s (p, [])")
    case Nil
    with Cons.IH[OF sp, of f] show ?thesis by simp
  next
    case (Cons x xs)
    obtain e m where x: "x = (e, m)" by (cases x) auto
    have "\<forall>q \<in> fst ` set (scan r s ps e). p < q" using scan_starts[of r s ps e] lt by blast
    with Cons x Cons.IH[OF sp, of f] Cons.IH[OF sp, of e] show ?thesis by auto
  qed
qed

lemma all_matches_sorted: "sorted_wrt (<) (map fst (all_matches r s))"
  unfolding all_matches_def by (rule scan_sorted) (rule sorted_wrt_upt)

lemma scan_complete:
  "sorted_wrt (<) ps \<Longrightarrow> p \<in> set ps \<Longrightarrow> f \<le> p \<Longrightarrow> rmatch r s (p, []) \<noteq> [] \<Longrightarrow>
   \<exists>x \<in> set (scan r s ps f). fst x \<le> p \<and> (p < fst (snd x) \<or> p = fst x)"
proof (induction ps arbitrary: f)
  case Nil
  then show ?case by simp
next
  case (Cons q ps)
  from Cons.prems(1) have sp: "sorted_wrt (<) ps" and lt: "\<forall>q' \<in> set ps. q < q'" by simp_all
  show ?case
  proof (cases "q < f")
    case True
    with Cons.prems have "p \<in> set ps" by auto
    from Cons.IH[OF sp this Cons.prems(3,4)] True show ?thesis by simp
  next
    case False
    show ?thesis
    proof (cases "rmatch r s (q, [])")
      case Nil
      with Cons.prems have "p \<in> set ps" by auto
      from Cons.IH[OF sp this Cons.prems(3,4)] False Nil show ?thesis by simp
    next
      case (Cons x xs)
      obtain e m where x: "x = (e, m)" by (cases x) auto
      have sc: "scan r s (q # ps) f = (q, e, m) # scan r s ps e" using False Cons x by simp
      show ?thesis
      proof (cases "p = q \<or> p < e")
        case True
        have "q \<le> p" using Cons.prems(2) lt by auto
        with True sc show ?thesis by auto
      next
        case False
        then have "p \<in> set ps" "e \<le> p" using Cons.prems(2) by auto
        from Cons.IH[OF sp this Cons.prems(4)] sc show ?thesis by auto
      qed
    qed
  qed
qed

lemma all_matches_complete:
  "p \<le> length s \<Longrightarrow> rmatch r s (p, []) \<noteq> [] \<Longrightarrow>
   \<exists>x \<in> set (all_matches r s). fst x \<le> p \<and> (p < fst (snd x) \<or> p = fst x)"
proof -
  assume p: "p \<le> length s" and ne: "rmatch r s (p, []) \<noteq> []"
  have "p \<in> set [0 ..< Suc (length s)]" using p by (simp del: upt_Suc)
  from scan_complete[OF sorted_wrt_upt this _ ne, of 0] show ?thesis
    unfolding all_matches_def by simp
qed

lemma scan_are_matches:
  "x \<in> set (scan r s ps f) \<Longrightarrow>
     fst x \<in> set ps \<and> rmatch r s (fst x, []) \<noteq> [] \<and> hd (rmatch r s (fst x, [])) = snd x"
proof (induction ps arbitrary: f)
  case Nil
  then show ?case by simp
next
  case (Cons q ps)
  show ?case
  proof (cases "rmatch r s (q, [])")
    case Nil
    with Cons.prems have "x \<in> set (scan r s ps f)" by (simp split: if_splits)
    from Cons.IH[OF this] show ?thesis by simp
  next
    case (Cons y ys)
    obtain e m where y: "y = (e, m)" by (cases y) auto
    from Cons.prems Cons y have
      "x \<in> set (scan r s ps f) \<or> x = (q, e, m) \<or> x \<in> set (scan r s ps e)"
      by (auto split: if_splits)
    then show ?thesis using Cons.IH[of f] Cons.IH[of e] Cons y by auto
  qed
qed

subsection \<open>What the Python patterns capture\<close>

lemma takeWhile_nth_holds: "k < length (takeWhile P xs) \<Longrightarrow> P (xs ! k)"
  by (metis nth_mem set_takeWhileD takeWhile_nth)

lemma takeWhile_drop_Nil:
  "n < length s \<Longrightarrow> \<not> P (s ! n) \<Longrightarrow> takeWhile P (drop n s) = []"
  by (simp add: Cons_nth_drop_Suc[symmetric])

lemma inside_space_run:
  assumes "k < length (takeWhile is_space (drop p s))"
  shows "takeWhile non_space (drop (p + k) s) = []"
proof -
  have le: "length (takeWhile is_space (drop p s)) \<le> length s - p" by (rule takeWhile_drop_le)
  with assms have lt: "p + k < length s" by simp
  from takeWhile_nth_holds[OF assms] have "is_space (drop p s ! k)" .
  with lt have "is_space (s ! (p + k))" by simp
  then have "\<not> non_space (s ! (p + k))" by (simp add: non_space_def)
  with lt show ?thesis by (rule takeWhile_drop_Nil)
qed

lemma rev_upt_1: "0 < t \<Longrightarrow> rev [1 ..< Suc t] = t # rev [1 ..< t]"
  by simp

lemma concat_map_Nil: "\<forall>x \<in> set xs. f x = [] \<Longrightarrow> concat (map f xs) = []"
  by (induction xs) auto

lemma rmatch_group_plus:
  "rmatch (Grp i (PlusCls B)) s (q, c) =
     map (\<lambda>j. (q + j, (i, take j (drop q s)) # c)) (rev [1 ..< Suc (length (takeWhile B (drop q s)))])"
  by (simp add: comp_def)

lemma rmatch_group_plus_Nil:
  "takeWhile B (drop q s) = [] \<Longrightarrow> rmatch (Grp i (PlusCls B)) s (q, c) = []"
  by simp

lemma rmatch_group_plus_hd:
  assumes "rmatch (Grp i (PlusCls B)) s (q, c) = (e, m) # rest"
  shows "m = (i, takeWhile B (drop q s)) # c \<and> takeWhile B (drop q s) \<noteq> []
         \<and> e = q + length (takeWhile B (drop q s))"
proof -
  let ?u = "length (takeWhile B (drop q s))"
  have pos: "0 < ?u" using assms by (cases "?u = 0") auto
  have "rmatch (Grp i (PlusCls B)) s (q, c) =
          (q + ?u, (i, take ?u (drop q s)) # c) #
            map (\<lambda>j. (q + j, (i, take j (drop q s)) # c)) (rev [1 ..< ?u])"
    unfolding rmatch_group_plus rev_upt_1[OF pos] by simp
  with assms have "e = q + ?u" "m = (i, take ?u (drop q s)) # c" by simp_all
  moreover have "take ?u (drop q s) = takeWhile B (drop q s)"
    by (rule takeWhile_eq_take[symmetric])
  ultimately show ?thesis using pos by auto
qed

lemma rmatch_Seq_Lit:
  "rmatch (Seq (Lit l) r) s (p, c) =
     (if take (length l) (drop p s) = l then rmatch r s (p + length l, c) else [])"
  by simp

lemma rmatch_Seq_BolM:
  "rmatch (Seq BolM r) s (p, c) =
     (if p = 0 \<or> is_line_terminator (s ! (p - 1)) then rmatch r s (p, c) else [])"
  by simp

lemma rmatch_Seq_PlusCls:
  "rmatch (Seq (PlusCls A) r) s (p, c) =
     concat (map (\<lambda>k. rmatch r s (p + k, c)) (rev [1 ..< Suc (length (takeWhile A (drop p s)))]))"
  by (simp add: comp_def del: upt_Suc)

lemma rmatch_space_then_group:
  "rmatch (Seq (PlusCls is_space) (Grp i (PlusCls non_space))) s (p, c) =
     (if length (takeWhile is_space (drop p s)) = 0 then []
      else rmatch (Grp i (PlusCls non_space)) s (p + length (takeWhile is_space (drop p s)), c))"
proof -
  define t where "t = length (takeWhile is_space (drop p s))"
  define G where "G = Grp i (PlusCls non_space)"
  have seq: "rmatch (Seq (PlusCls is_space) G) s (p, c) =
            concat (map (\<lambda>k. rmatch G s (p + k, c)) (rev [1 ..< Suc t]))"
    unfolding t_def by (rule rmatch_Seq_PlusCls)
  show ?thesis
  proof (cases "t = 0")
    case True
    with seq show ?thesis unfolding t_def[symmetric] G_def[symmetric] by simp
  next
    case False
    then have pos: "0 < t" by simp
    have inner: "\<forall>k \<in> set (rev [1 ..< t]). rmatch G s (p + k, c) = []"
    proof
      fix k assume "k \<in> set (rev [1 ..< t])"
      then have "k < length (takeWhile is_space (drop p s))" unfolding t_def by simp
      from inside_space_run[OF this] show "rmatch G s (p + k, c) = []"
        unfolding G_def by (rule rmatch_group_plus_Nil)
    qed
    have "concat (map (\<lambda>k. rmatch G s (p + k, c)) (rev [1 ..< Suc t]))
            = rmatch G s (p + t, c) @ concat (map (\<lambda>k. rmatch G s (p + k, c)) (rev [1 ..< t]))"
      unfolding rev_upt_1[OF pos] by (simp only: list.map concat.simps)
    also have "concat (map (\<lambda>k. rmatch G s (p + k, c)) (rev [1 ..< t])) = []"
      by (rule concat_map_Nil[OF inner])
    finally have "rmatch (Seq (PlusCls is_space) G) s (p, c) = rmatch G s (p + t, c)"
      using seq by (simp only: append_Nil2)
    with False show ?thesis unfolding t_def[symmetric] G_def[symmetric] by (simp only: if_False)
  qed
qed

lemma dropWhile_drop_run:
  "drop (p + length (takeWhile P (drop p s))) s = dropWhile P (drop p s)"
  by (simp add: dropWhile_eq_drop add.commute)

lemma pyImport_hd:
  assumes "rmatch pyImportRegex c (p, []) = (e, m) # rest"
  shows "m = [(1, module_run c (p + 6))] \<and> module_run c (p + 6) \<noteq> []"
proof -
  define X where "X = Seq (PlusCls is_space) (Grp 1 (PlusCls non_space))"
  have py: "pyImportRegex = Seq BolM (Seq (Lit ''import'') X)"
    unfolding pyImportRegex_def X_def by simp
  have "rmatch pyImportRegex c (p, []) = [] \<or>
        rmatch pyImportRegex c (p, []) = rmatch X c (p + length ''import'', [])"
    unfolding py rmatch_Seq_BolM rmatch_Seq_Lit by (simp only: split: if_splits) auto
  moreover have "p + length ''import'' = p + 6" by simp
  ultimately have "rmatch pyImportRegex c (p, []) = [] \<or>
        rmatch pyImportRegex c (p, []) = rmatch X c (p + 6, [])" by (simp only:)
  with assms have X: "rmatch X c (p + 6, []) = (e, m) # rest"
    by (metis list.distinct(1))
  define t where "t = length (takeWhile is_space (drop (p + 6) c))"
  have eq: "rmatch X c (p + 6, []) =
              (if t = 0 then [] else rmatch (Grp 1 (PlusCls non_space)) c (p + 6 + t, []))"
    unfolding X_def t_def by (rule rmatch_space_then_group)
  have G: "rmatch (Grp 1 (PlusCls non_space)) c (p + 6 + t, []) = (e, m) # rest"
  proof (cases "t = 0")
    case True
    with eq X show ?thesis by (metis list.distinct(1))
  next
    case False
    with eq X show ?thesis by metis
  qed
  from rmatch_group_plus_hd[OF G] show ?thesis
    unfolding module_run_def t_def dropWhile_drop_run by simp
qed


lemma mem_rmatch_Seq:
  "x \<in> set (rmatch (Seq a b) s st) \<longleftrightarrow> (\<exists>y \<in> set (rmatch a s st). x \<in> set (rmatch b s y))"
  by simp

lemma mem_rmatch_Lit:
  "(e, m) \<in> set (rmatch (Lit l) s (p, c)) \<longleftrightarrow>
     take (length l) (drop p s) = l \<and> e = p + length l \<and> m = c"
  by auto

lemma mem_rmatch_PlusCls:
  "(e, m) \<in> set (rmatch (PlusCls P) s (p, c)) \<longleftrightarrow>
     m = c \<and> (\<exists>k. 1 \<le> k \<and> k \<le> length (takeWhile P (drop p s)) \<and> e = p + k)"
  by auto

lemma mem_rmatch_Grp_PlusCls:
  "(e, m) \<in> set (rmatch (Grp i (PlusCls P)) s (q, c)) \<longleftrightarrow>
     (\<exists>j. 1 \<le> j \<and> j \<le> length (takeWhile P (drop q s)) \<and> e = q + j
          \<and> m = (i, take j (drop q s)) # c)"
  unfolding rmatch_group_plus by auto

lemma pyFrom_mem:
  assumes "(e, m) \<in> set (rmatch pyFromRegex c (p, []))"
  shows "m = [(1, module_run c (p + 4))] \<and> module_run c (p + 4) \<noteq> []"
proof -
  have py: "pyFromRegex = Seq (Lit ''from'') (Seq (PlusCls is_space)
              (Seq (Grp 1 (PlusCls non_space)) (Seq (PlusCls is_space) (Lit ''import''))))"
    unfolding pyFromRegex_def by simp
  from assms obtain y1 y2 y3 y4 where
    1: "y1 \<in> set (rmatch (Lit ''from'') c (p, []))"
    and 2: "y2 \<in> set (rmatch (PlusCls is_space) c y1)"
    and 3: "y3 \<in> set (rmatch (Grp 1 (PlusCls non_space)) c y2)"
    and 4: "y4 \<in> set (rmatch (PlusCls is_space) c y3)"
    and 5: "(e, m) \<in> set (rmatch (Lit ''import'') c y4)"
    unfolding py mem_rmatch_Seq by blast
  obtain e1 m1 where y1: "y1 = (e1, m1)" by (cases y1) auto
  obtain e2 m2 where y2: "y2 = (e2, m2)" by (cases y2) auto
  obtain e3 m3 where y3: "y3 = (e3, m3)" by (cases y3) auto
  obtain e4 m4 where y4: "y4 = (e4, m4)" by (cases y4) auto
  from 1 have a1: "e1 = p + 4" "m1 = []" unfolding y1 mem_rmatch_Lit by simp_all
  define t where "t = length (takeWhile is_space (drop (p + 4) c))"
  from 2 obtain k where k: "1 \<le> k" "k \<le> t" "e2 = p + 4 + k" and m2: "m2 = []"
    unfolding y1 y2 a1 mem_rmatch_PlusCls t_def by blast
  define u where "u = length (takeWhile non_space (drop e2 c))"
  from 3 obtain j where j: "1 \<le> j" "j \<le> u" "e3 = e2 + j" and m3: "m3 = [(1, take j (drop e2 c))]"
    unfolding y2 y3 m2 mem_rmatch_Grp_PlusCls u_def by blast
  from 4 obtain k2 where k2: "1 \<le> k2" "k2 \<le> length (takeWhile is_space (drop e3 c))" and m4: "m4 = m3"
    unfolding y3 y4 mem_rmatch_PlusCls by blast
  from 5 have m: "m = m4" unfolding y4 mem_rmatch_Lit by simp
  have kt: "k = t"
  proof (rule ccontr)
    assume "k \<noteq> t"
    with k have "k < length (takeWhile is_space (drop (p + 4) c))" unfolding t_def by simp
    from inside_space_run[OF this] have "u = 0" unfolding u_def k(3) by simp
    with j show False by simp
  qed
  have ju: "j = u"
  proof (rule ccontr)
    assume "j \<noteq> u"
    with j have lt: "j < length (takeWhile non_space (drop e2 c))" unfolding u_def by simp
    have "length (takeWhile non_space (drop e2 c)) \<le> length c - e2" by (rule takeWhile_drop_le)
    with lt have in_c: "e2 + j < length c" by simp
    from takeWhile_nth_holds[OF lt] in_c have ns: "non_space (c ! (e2 + j))" by simp
    from k2 have "0 < length (takeWhile is_space (drop e3 c))" by linarith
    from takeWhile_nth_holds[OF this] in_c have "is_space (c ! (e2 + j))" unfolding j(3) by simp
    with ns show False by (simp add: non_space_def)
  qed
  have "take u (drop e2 c) = takeWhile non_space (drop e2 c)"
    unfolding u_def by (rule takeWhile_eq_take[symmetric])
  moreover have "drop e2 c = dropWhile is_space (drop (p + 4) c)"
    unfolding k(3) kt t_def by (rule dropWhile_drop_run)
  ultimately have "take j (drop e2 c) = module_run c (p + 4)"
    unfolding ju module_run_def by simp
  moreover have "take j (drop e2 c) \<noteq> []"
  proof -
    have "length (take u (drop e2 c)) = u"
      using \<open>take u (drop e2 c) = takeWhile non_space (drop e2 c)\<close> u_def by simp
    with j ju show ?thesis by auto
  qed
  ultimately show ?thesis using m m4 m3 by simp
qed

lemma capture_single: "capture i (p, e, [(i, g)]) = g"
  by (simp add: capture_def group_def)

lemma pyImport_capture:
  assumes "x \<in> set (all_matches pyImportRegex c)"
  shows "capture 1 x = module_run c (fst x + 6) \<and> module_run c (fst x + 6) \<noteq> []"
proof -
  from assms have "x \<in> set (scan pyImportRegex c [0 ..< Suc (length c)] 0)"
    by (simp only: all_matches_def)
  from scan_are_matches[OF this] have ne: "rmatch pyImportRegex c (fst x, []) \<noteq> []"
    and hd: "hd (rmatch pyImportRegex c (fst x, [])) = snd x" by simp_all
  obtain p e m where x: "x = (p, e, m)" by (cases x) auto
  from ne hd obtain rest where "rmatch pyImportRegex c (p, []) = (e, m) # rest"
    unfolding x by (cases "rmatch pyImportRegex c (p, [])") auto
  from pyImport_hd[OF this] show ?thesis unfolding x by (simp add: capture_single)
qed

lemma pyFrom_capture:
  assumes "x \<in> set (all_matches pyFromRegex c)"
  shows "capture 1 x = module_run c (fst x + 4) \<and> module_run c (fst x + 4) \<noteq> []"
proof -
  from assms have "x \<in> set (scan pyFromRegex c [0 ..< Suc (length c)] 0)"
    by (simp only: all_matches_def)
  from scan_are_matches[OF this] have ne: "rmatch pyFromRegex c (fst x, []) \<noteq> []"
    and hd: "hd (rmatch pyFromRegex c (fst x, [])) = snd x" by simp_all
  obtain p e m where x: "x = (p, e, m)" by (cases x) auto
  from ne hd have "(e, m) \<in> set (rmatch pyFromRegex c (p, []))"
    unfolding x by (metis hd_in_set fst_conv snd_conv)
  from pyFrom_mem[OF this] show ?thesis unfolding x by (simp add: capture_single)
qed

subsection \<open>The resolver and the builder\<close>

lemma foldl_set_add: "set (foldl set_add acc xs) = set acc \<union> set xs"
  by (induction xs arbitrary: acc) (auto simp: set_add_def)

lemma set_new_Set: "set (new_Set xs) = set xs"
  by (simp add: new_Set_def foldl_set_add)

lemma foldl_set_add_distinct: "distinct acc \<Longrightarrow> distinct (foldl set_add acc xs)"
  by (induction xs arbitrary: acc) (auto simp: set_add_def)

lemma distinct_new_Set: "distinct (new_Set xs)"
  by (simp add: new_Set_def foldl_set_add_distinct)

lemma try_extensions_find:
  "try_extensions base exts K = find (\<lambda>c. c \<in> set K) (map (\<lambda>ext. base @ ext) exts)"
  by (induction exts) (auto simp: has_def Let_def)

lemma try_extensions_in: "try_extensions base exts K = Some c \<Longrightarrow> c \<in> set K"
  by (induction exts) (auto simp: has_def Let_def split: if_splits)

lemma basename_match_in: "basename_match imp K = Some f \<Longrightarrow> f \<in> set K"
  by (induction K) (auto simp: Let_def split: if_splits)

lemma resolveImport_in: "resolveImport src imp K = Some t \<Longrightarrow> t \<in> set K"
  by (auto simp: resolveImport_def resolveRelative_def has_def
        split: option.splits if_splits dest: try_extensions_in basename_match_in)

lemma parsePythonImports_total: "\<exists>imps. parsePythonImports c = Some imps"
  by (simp add: parsePythonImports_all_matches)

lemma fallbackRegexExtract_total: "\<exists>imps. fallbackRegexExtract c = Some imps"
  by (simp add: fallbackRegexExtract_all_matches)

lemma parseJsTsImports_total: "\<exists>imps. parseJsTsImports p c n = Some imps"
  by (simp add: parseJsTsImports_def fallbackRegexExtract_all_matches split: sum.splits)

lemma extract_imports_total: "\<exists>imps. extract_imports p f = Some imps"
  using parseJsTsImports_total parsePythonImports_total by (simp add: extract_imports_def)

lemma link_imports_eq:
  "link_imports n K imps acc =
     acc @ map (\<lambda>t. \<lparr>source = n, target = t\<rparr>)
             (filter (\<lambda>t. t \<noteq> []) (List.map_filter (\<lambda>imp. resolveImport n imp K) imps))"
  by (induction imps arbitrary: acc) (auto simp: List.map_filter_simps split: option.splits)

lemma link_imports_acc: "link_imports n K imps acc = acc @ link_imports n K imps []"
  by (simp add: link_imports_eq)

lemma link_files_eq:
  "link_files p K files acc = Some (acc @ concat (map (file_links p K) files))"
proof (induction files arbitrary: acc)
  case Nil
  then show ?case by simp
next
  case (Cons f files)
  obtain imps where imps: "extract_imports p f = Some imps"
    using extract_imports_total by blast
  show ?case
  proof (cases "type f = File")
    case True
    with imps Cons.IH[of "link_imports (name f) K imps acc"] show ?thesis
      by (simp add: file_links_def link_imports_acc[of _ _ _ acc])
  next
    case False
    with Cons.IH[of acc] show ?thesis by (simp add: file_links_def)
  qed
qed

lemma generateDependencyGraph_eq:
  "generateDependencyGraph p files =
     Some \<lparr>nodes = map (\<lambda>f. \<lparr>node_id = name f, node_name = name f, node_type = type f, val = 1\<rparr>) files,
           links = concat (map (file_links p (new_Set (map name files))) files)\<rparr>"
  by (simp add: generateDependencyGraph_def link_files_eq Let_def)

lemma link_imports_mem:
  "l \<in> set (link_imports n K imps []) \<Longrightarrow>
     \<exists>imp \<in> set imps. source l = n \<and> resolveImport n imp K = Some (target l)"
  by (auto simp: link_imports_eq List.map_filter_def)

lemma file_links_File:
  "type f = File \<Longrightarrow> extract_imports p f = Some imps \<Longrightarrow>
     file_links p K f = link_imports (name f) K imps []"
  by (simp add: file_links_def)

lemma file_links_not_File: "type f \<noteq> File \<Longrightarrow> file_links p K f = []"
  by (simp add: file_links_def)

lemma file_links_mem:
  assumes l: "l \<in> set (file_links p K f)"
  shows "type f = File \<and> (\<exists>imps. extract_imports p f = Some imps
        \<and> (\<exists>imp \<in> set imps. source l = name f \<and> resolveImport (name f) imp K = Some (target l)))"
proof -
  have t: "type f = File"
  proof (rule ccontr)
    assume "type f \<noteq> File"
    from file_links_not_File[OF this, of p K] l show False by simp
  qed
  obtain imps where e: "extract_imports p f = Some imps" using extract_imports_total by blast
  from l have "l \<in> set (link_imports (name f) K imps [])"
    unfolding file_links_File[OF t e] .
  from link_imports_mem[OF this] t e show ?thesis by simp
qed

lemma link_imports_count:
  "resolveImport n imp K = Some t \<Longrightarrow> t \<noteq> [] \<Longrightarrow>
     count_list imps imp \<le> count_list (link_imports n K imps []) \<lparr>source = n, target = t\<rparr>"
proof (induction imps)
  case Nil
  then show ?case by simp
next
  case (Cons i imps)
  have step: "link_imports n K (i # imps) [] = link_imports n K [i] [] @ link_imports n K imps []"
    by (simp add: link_imports_eq List.map_filter_simps split: option.splits)
  show ?case
  proof (cases "i = imp")
    case True
    with Cons.prems have "link_imports n K [i] [] = [\<lparr>source = n, target = t\<rparr>]" by simp
    with True Cons.IH[OF Cons.prems] show ?thesis unfolding step by simp
  next
    case False
    with Cons.IH[OF Cons.prems] show ?thesis unfolding step by simp
  qed
qed

lemma remdups_mid: "x \<in> set zs \<Longrightarrow> remdups (ys @ x # zs) = remdups (ys @ zs)"
  by (induction ys) auto

lemma new_Set_first_occurrences: "new_Set xs = rev (remdups (rev xs))"
proof -
  have "distinct acc \<Longrightarrow> foldl set_add acc xs = rev (remdups (rev xs @ rev acc))" for acc
  proof (induction xs arbitrary: acc)
    case Nil
    then show ?case by (simp add: distinct_remdups_id)
  next
    case (Cons x xs)
    have d: "distinct (set_add acc x)" using Cons.prems by (simp add: set_add_def)
    show ?case
    proof (cases "x \<in> set acc")
      case True
      then have "remdups (rev xs @ x # rev acc) = remdups (rev xs @ rev acc)"
        by (simp add: remdups_mid)
      with True Cons.IH[OF d] show ?thesis by (simp add: set_add_def)
    next
      case False
      with Cons.IH[OF d] show ?thesis by (simp add: set_add_def)
    qed
  qed
  from this[of "[]"] show ?thesis by (simp add: new_Set_def)
qed

subsection \<open>The resolver against the words of the specification\<close>

lemma resolve_parts_foldl: "resolve_parts stack parts = foldl spec_fold_segment stack parts"
  by (induction parts arbitrary: stack) (auto simp: spec_fold_segment_def)

lemma resolvedBase_spec: "resolvedBase src imp = spec_base src imp"
  by (simp add: resolvedBase_def spec_base_def resolve_parts_foldl)

lemma candidates_spec: "map (\<lambda>ext. base @ ext) extensions = spec_candidates base"
  by (simp add: extensions_def spec_candidates_def)

lemma resolveRelative_spec:
  "startsWith imp ''.'' \<Longrightarrow>
   resolveRelative src imp K = find (\<lambda>c. c \<in> set K) (spec_candidates (spec_base src imp))"
  by (simp add: resolveRelative_def try_extensions_find resolvedBase_spec candidates_spec)

lemma ext_rmatch_iff:
  "(e, m) \<in> set (rmatch extRegex s (p, [])) \<longleftrightarrow>
     take (Suc 0) (drop p s) = ''.'' \<and> e = length s \<and> m = []
     \<and> (\<exists>k. 1 \<le> k \<and> k \<le> length (takeWhile non_slash_dot (drop (Suc p) s)) \<and> Suc p + k = length s)"
  by (auto simp: extRegex_def split: if_splits)

lemma take1_drop: "take (Suc 0) (drop p s) = [c] \<longleftrightarrow> p < length s \<and> s ! p = c"
proof (cases "p < length s")
  case True
  then have "drop p s = s ! p # drop (Suc p) s" by (simp add: Cons_nth_drop_Suc)
  with True show ?thesis by simp
next
  case False
  then show ?thesis by simp
qed

lemma length_takeWhile_all:
  "length (takeWhile P xs) = length xs \<longleftrightarrow> (\<forall>x \<in> set xs. P x)"
  by (induction xs) auto

lemma ext_rmatch_mem:
  "(e, m) \<in> set (rmatch extRegex s (p, [])) \<longleftrightarrow> ext_at s p \<and> e = length s \<and> m = []"
proof -
  define t where "t = length (takeWhile non_slash_dot (drop (Suc p) s))"
  have le: "t \<le> length s - Suc p" unfolding t_def by (rule takeWhile_drop_le)
  have all: "t = length s - Suc p \<longleftrightarrow> (\<forall>c \<in> set (drop (Suc p) s). non_slash_dot c)"
    unfolding t_def using length_takeWhile_all[of non_slash_dot "drop (Suc p) s"] by simp
  have "(\<exists>k. 1 \<le> k \<and> k \<le> t \<and> Suc p + k = length s)
        \<longleftrightarrow> Suc p < length s \<and> t = length s - Suc p"
  proof
    assume "\<exists>k. 1 \<le> k \<and> k \<le> t \<and> Suc p + k = length s"
    then show "Suc p < length s \<and> t = length s - Suc p" using le by auto
  next
    assume a: "Suc p < length s \<and> t = length s - Suc p"
    then have "1 \<le> length s - Suc p \<and> length s - Suc p \<le> t \<and> Suc p + (length s - Suc p) = length s"
      by arith
    then show "\<exists>k. 1 \<le> k \<and> k \<le> t \<and> Suc p + k = length s" by blast
  qed
  then show ?thesis
    unfolding ext_rmatch_iff ext_at_def take1_drop t_def[symmetric] all[symmetric] by auto
qed

lemma ext_rmatch_empty: "rmatch extRegex s (p, []) = [] \<longleftrightarrow> \<not> ext_at s p"
proof
  assume "rmatch extRegex s (p, []) = []"
  then show "\<not> ext_at s p" using ext_rmatch_mem[of "length s" "[]" s p] by auto
next
  assume n: "\<not> ext_at s p"
  show "rmatch extRegex s (p, []) = []"
  proof (rule ccontr)
    assume "rmatch extRegex s (p, []) \<noteq> []"
    then obtain e m where "(e, m) \<in> set (rmatch extRegex s (p, []))"
      by (cases "rmatch extRegex s (p, [])") auto
    then have "ext_at s p" unfolding ext_rmatch_mem by simp
    with n show False by simp
  qed
qed

lemma ext_at_decomp:
  "ext_at s p \<longleftrightarrow>
     (\<exists>b e. s = b @ CHR ''.'' # e \<and> e \<noteq> [] \<and> (\<forall>c \<in> set e. non_slash_dot c) \<and> p = length b)"
proof
  assume a: "ext_at s p"
  then have "s = take p s @ CHR ''.'' # drop (Suc p) s"
    unfolding ext_at_def by (metis id_take_nth_drop)
  moreover have "drop (Suc p) s \<noteq> []" using a unfolding ext_at_def by simp
  moreover have "\<forall>c \<in> set (drop (Suc p) s). non_slash_dot c" using a unfolding ext_at_def by simp
  moreover have "p = length (take p s)" using a unfolding ext_at_def by simp
  ultimately show "\<exists>b e. s = b @ CHR ''.'' # e \<and> e \<noteq> [] \<and> (\<forall>c \<in> set e. non_slash_dot c) \<and> p = length b"
    by blast
next
  assume "\<exists>b e. s = b @ CHR ''.'' # e \<and> e \<noteq> [] \<and> (\<forall>c \<in> set e. non_slash_dot c) \<and> p = length b"
  then obtain b e where s: "s = b @ CHR ''.'' # e" and e: "e \<noteq> []" "\<forall>c \<in> set e. non_slash_dot c"
    and p: "p = length b" by blast
  show "ext_at s p" unfolding ext_at_def s p using e by (simp add: nth_append)
qed

lemma ext_at_unique:
  assumes "ext_at s p" "ext_at s q"
  shows "p = q"
proof -
  have aux: "\<not> (p' < q' \<and> ext_at s p' \<and> ext_at s q')" for p' q'
  proof
    assume h: "p' < q' \<and> ext_at s p' \<and> ext_at s q'"
    then have q: "q' < length s" "s ! q' = CHR ''.''" unfolding ext_at_def by simp_all
    from h have pq: "p' < q'" by simp
    have "drop (Suc p') s ! (q' - Suc p') = s ! q'" using pq q(1) by simp
    moreover have "q' - Suc p' < length (drop (Suc p') s)" using pq q(1) by simp
    ultimately have "s ! q' \<in> set (drop (Suc p') s)" by (metis nth_mem)
    with h have "non_slash_dot (s ! q')" unfolding ext_at_def by blast
    with q(2) show False by (simp add: non_slash_dot_def)
  qed
  show ?thesis using aux[of p q] aux[of q p] assms by (metis nat_neq_iff)
qed

lemma exec_ext_Some:
  assumes "ext_at s p"
  shows "exec extRegex s 0 = Some (p, length s, [])"
proof (cases "exec extRegex s 0")
  case None
  from assms have "p \<le> length s" unfolding ext_at_def by simp
  with None have "rmatch extRegex s (p, []) = []" by (simp add: exec_None)
  with assms show ?thesis by (simp add: ext_rmatch_empty)
next
  case (Some x)
  obtain j e m where x: "x = (j, e, m)" by (cases x) auto
  from exec_Some[OF Some[unfolded x]] have ne: "rmatch extRegex s (j, []) \<noteq> []"
    and hd: "hd (rmatch extRegex s (j, [])) = (e, m)" by simp_all
  from ne have j: "ext_at s j" by (simp add: ext_rmatch_empty)
  from ne hd have "(e, m) \<in> set (rmatch extRegex s (j, []))" by (metis hd_in_set)
  then have "e = length s" "m = []" by (simp_all add: ext_rmatch_mem)
  with ext_at_unique[OF j assms] Some x show ?thesis by simp
qed

lemma exec_ext_None: "\<forall>p. \<not> ext_at s p \<Longrightarrow> exec extRegex s 0 = None"
  by (simp add: exec_None ext_rmatch_empty)

lemma spec_strip_ext_decomp:
  assumes s: "s = b @ CHR ''.'' # e" and e: "e \<noteq> []" "\<forall>c \<in> set e. non_slash_dot c"
  shows "spec_strip_ext s = b"
proof -
  have r: "rev s = rev e @ CHR ''.'' # rev b" by (simp add: s)
  have nd: "\<not> non_slash_dot CHR ''.''" by (simp add: non_slash_dot_def)
  have "takeWhile non_slash_dot (rev e @ CHR ''.'' # rev b)
          = rev e @ takeWhile non_slash_dot (CHR ''.'' # rev b)"
    by (rule takeWhile_append2) (use e(2) in simp)
  then have tw: "takeWhile non_slash_dot (rev s) = rev e"
    unfolding r using nd by simp
  have "dropWhile non_slash_dot (rev e @ CHR ''.'' # rev b)
          = dropWhile non_slash_dot (CHR ''.'' # rev b)"
    by (rule dropWhile_append2) (use e(2) in simp)
  then have dw: "dropWhile non_slash_dot (rev s) = CHR ''.'' # rev b"
    unfolding r using nd by simp
  show ?thesis unfolding spec_strip_ext_def tw dw using e(1) by (simp add: Let_def)
qed

lemma spec_strip_ext_none:
  assumes "\<forall>p. \<not> ext_at s p"
  shows "spec_strip_ext s = s"
proof -
  let ?ext = "rev (takeWhile non_slash_dot (rev s))"
  let ?stem = "rev (dropWhile non_slash_dot (rev s))"
  have "\<not> (?ext \<noteq> [] \<and> ?stem \<noteq> [] \<and> last ?stem = CHR ''.'')"
  proof
    assume h: "?ext \<noteq> [] \<and> ?stem \<noteq> [] \<and> last ?stem = CHR ''.''"
    have "rev s = takeWhile non_slash_dot (rev s) @ dropWhile non_slash_dot (rev s)" by simp
    then have "s = ?stem @ ?ext" by (metis rev_append rev_rev_ident)
    moreover have "?stem = butlast ?stem @ [CHR ''.'']" using h by (metis append_butlast_last_id)
    ultimately have "s = butlast ?stem @ CHR ''.'' # ?ext" by (metis append.assoc append_Cons append_Nil)
    moreover have "\<forall>c \<in> set ?ext. non_slash_dot c" by (auto dest: set_takeWhileD)
    ultimately have "ext_at s (length (butlast ?stem))" using h unfolding ext_at_decomp by blast
    with assms show False by blast
  qed
  then show ?thesis unfolding spec_strip_ext_def Let_def by auto
qed

lemma js_replace_ext: "js_replace extRegex s [] = spec_strip_ext s"
proof (cases "\<exists>p. ext_at s p")
  case True
  then obtain p where p: "ext_at s p" by blast
  then obtain b e where s: "s = b @ CHR ''.'' # e" and e: "e \<noteq> []" "\<forall>c \<in> set e. non_slash_dot c"
    and pb: "p = length b" unfolding ext_at_decomp by blast
  have "js_replace extRegex s [] = take p s" by (simp add: js_replace_def exec_ext_Some[OF p])
  also have "\<dots> = b" by (simp add: s pb)
  finally show ?thesis using spec_strip_ext_decomp[OF s e] by simp
next
  case False
  then have n: "\<forall>p. \<not> ext_at s p" by blast
  show ?thesis by (simp add: js_replace_def exec_ext_None[OF n] spec_strip_ext_none[OF n])
qed

lemma basename_match_find: "basename_match imp K = find (spec_basename_hit imp) K"
  by (induction K) (simp_all add: Let_def js_replace_ext spec_basename_hit_def)

lemma endsWith_trans: "endsWith s t \<Longrightarrow> endsWith t u \<Longrightarrow> endsWith s u"
  unfolding endsWith_def by (rule suffix_order.trans)

lemma endsWith_tail: "endsWith s (c # t) \<Longrightarrow> endsWith s t"
  unfolding endsWith_def by (rule suffix_ConsD)

lemma basename_match_None:
  assumes "\<forall>f \<in> set K. \<not> endsWith (spec_strip_ext f) imp"
  shows "basename_match imp K = None"
proof -
  have "\<forall>f \<in> set K. \<not> spec_basename_hit imp f"
    using assms endsWith_tail unfolding spec_basename_hit_def by blast
  then show ?thesis unfolding basename_match_find by (simp add: find_None_iff)
qed

section \<open>Claims about the import extractors\<close>

text \<open>
  C6. For every content string, the Python extractor returns the captured module of every
  match of the "from MODULE import" pattern in text order, followed by that of every match
  of the line-anchored "import MODULE" pattern in text order; the two lists are appended
  as they are, nothing is merged or removed. Text order: the matches' start positions
  increase strictly; every match: each position at which a pattern matches is the start of
  a listed match or lies inside an earlier listed match (the engine resumes at the end of
  the previous match).
\<close>

theorem parsePythonImports_from_then_import:
  "parsePythonImports c =
     Some (map (capture 1) (all_matches pyFromRegex c) @
           map (capture 1) (all_matches pyImportRegex c))
   \<and> sorted_wrt (<) (map fst (all_matches pyFromRegex c))
   \<and> sorted_wrt (<) (map fst (all_matches pyImportRegex c))
   \<and> (\<forall>r p. (r = pyFromRegex \<or> r = pyImportRegex) \<and> p \<le> length c
          \<and> rmatch r c (p, []) \<noteq> [] \<longrightarrow>
        (\<exists>x \<in> set (all_matches r c). fst x \<le> p \<and> (p < fst (snd x) \<or> p = fst x)))"
proof (intro conjI allI impI)
  show "parsePythonImports c =
     Some (map (capture 1) (all_matches pyFromRegex c) @
           map (capture 1) (all_matches pyImportRegex c))"
    by (rule parsePythonImports_all_matches)
  show "sorted_wrt (<) (map fst (all_matches pyFromRegex c))"
    by (rule all_matches_sorted)
  show "sorted_wrt (<) (map fst (all_matches pyImportRegex c))"
    by (rule all_matches_sorted)
next
  fix r p
  assume "(r = pyFromRegex \<or> r = pyImportRegex) \<and> p \<le> length c \<and> rmatch r c (p, []) \<noteq> []"
  then show "\<exists>x \<in> set (all_matches r c). fst x \<le> p \<and> (p < fst (snd x) \<or> p = fst x)"
    using all_matches_complete[of p c r] by blast
qed

theorem parsePythonImports_from_then_import_witness:
  "parsePythonImports (''import a'' @ [CHR 0x0A] @ ''from b import c'' @ [CHR 0x0A] @ ''import a'')
     = Some [''b'', ''a'', ''a'']"
proof -
  let ?c = "''import a'' @ [CHR 0x0A] @ ''from b import c'' @ [CHR 0x0A] @ ''import a''"
  have f: "map (capture 1) (all_matches pyFromRegex ?c) = [''b'']" by code_simp
  have i: "map (capture 1) (all_matches pyImportRegex ?c) = [''a'', ''a'']" by code_simp
  from parsePythonImports_from_then_import[of ?c] f i show ?thesis by simp
qed

text \<open>
  C10. The Python patterns capture one maximal run of non-whitespace characters per
  match: for every content, the raw import of a match is the longest run of
  non-whitespace characters after the keyword (\<open>from\<close>, four characters, or
  \<open>import\<close>, six) and the whitespace that follows it, it is not empty, and each match
  contributes exactly this one string. So the statement \<open>import os, sys\<close> yields exactly
  one raw import, the string \<open>os,\<close> with its comma, and \<open>sys\<close> is not extracted.
\<close>

theorem python_capture_maximal_run:
  "parsePythonImports c =
     Some (map (\<lambda>x. module_run c (fst x + 4)) (all_matches pyFromRegex c) @
           map (\<lambda>x. module_run c (fst x + 6)) (all_matches pyImportRegex c))
   \<and> (\<forall>x \<in> set (all_matches pyFromRegex c).
         capture 1 x = module_run c (fst x + 4) \<and> module_run c (fst x + 4) \<noteq> [])
   \<and> (\<forall>x \<in> set (all_matches pyImportRegex c).
         capture 1 x = module_run c (fst x + 6) \<and> module_run c (fst x + 6) \<noteq> [])
   \<and> parsePythonImports ''import os, sys'' = Some [''os,'']"
proof -
  have f: "map (capture 1) (all_matches pyFromRegex c)
             = map (\<lambda>x. module_run c (fst x + 4)) (all_matches pyFromRegex c)"
    by (rule map_cong[OF refl]) (use pyFrom_capture in blast)
  have i: "map (capture 1) (all_matches pyImportRegex c)
             = map (\<lambda>x. module_run c (fst x + 6)) (all_matches pyImportRegex c)"
    by (rule map_cong[OF refl]) (use pyImport_capture in blast)
  have e: "parsePythonImports ''import os, sys'' = Some [''os,'']" by code_simp
  show ?thesis
    using parsePythonImports_all_matches[of c] f i e pyFrom_capture[of _ c] pyImport_capture[of _ c]
    by simp
qed

theorem python_capture_maximal_run_witness:
  "all_matches pyImportRegex ''import os, sys'' = [(0, 10, [(1, ''os,'')])]
   \<and> module_run ''import os, sys'' 6 = ''os,''
   \<and> capture 1 (0, 10, [(1, ''os,'')]) = module_run ''import os, sys'' 6
   \<and> all_matches pyFromRegex ''from  a.b import c'' = [(0, 16, [(1, ''a.b'')])]
   \<and> capture 1 (0, 16, [(1, ''a.b'')]) = module_run ''from  a.b import c'' 4"
proof -
  have a: "all_matches pyImportRegex ''import os, sys'' = [(0, 10, [(1, ''os,'')])]" by code_simp
  have r: "module_run ''import os, sys'' 6 = ''os,''" by code_simp
  have b: "all_matches pyFromRegex ''from  a.b import c'' = [(0, 16, [(1, ''a.b'')])]" by code_simp
  from python_capture_maximal_run[of "''import os, sys''"] a
  have 1: "capture 1 (0, 10, [(1, ''os,'')]) = module_run ''import os, sys'' 6" by simp
  from python_capture_maximal_run[of "''from  a.b import c''"] b
  have 2: "capture 1 (0, 16, [(1, ''a.b'')]) = module_run ''from  a.b import c'' 4" by simp
  from a r b 1 2 show ?thesis by blast
qed

text \<open>
  C4. For every content and file name the C-family extractor returns a list of imports
  and no error: when the construction of the syntax tree throws, or the walk over the tree
  throws, the result is the result of the regex extraction over the same content (what the
  walk had collected before the error is discarded).
\<close>

theorem parseJsTsImports_never_throws:
  "(\<exists>imports. parseJsTsImports createSourceFile c fileName = Some imports)
   \<and> (\<exists>fb. fallbackRegexExtract c = Some fb
        \<and> (\<forall>e. createSourceFile fileName c = Inl e \<longrightarrow>
              parseJsTsImports createSourceFile c fileName = Some fb)
        \<and> (\<forall>tree e. createSourceFile fileName c = Inr tree \<and> visit tree [] = Inl e \<longrightarrow>
              parseJsTsImports createSourceFile c fileName = Some fb))"
proof -
  obtain fb where fb: "fallbackRegexExtract c = Some fb"
    using fallbackRegexExtract_total by blast
  have "\<forall>e. createSourceFile fileName c = Inl e \<longrightarrow>
              parseJsTsImports createSourceFile c fileName = Some fb"
    by (simp add: parseJsTsImports_def try_parse_def fb)
  moreover have "\<forall>tree e. createSourceFile fileName c = Inr tree \<and> visit tree [] = Inl e \<longrightarrow>
              parseJsTsImports createSourceFile c fileName = Some fb"
    by (simp add: parseJsTsImports_def try_parse_def fb)
  ultimately show ?thesis using fb parseJsTsImports_total[of createSourceFile c fileName] by blast
qed

theorem parseJsTsImports_never_throws_witness:
  "visit (Node OtherKind [] None None []
        [Node ImportDeclaration [] (Some (Node StringLiteral ''./x'' None None [] [])) None [] [],
         Node CallExpression [] None None [] []]) [] = Inl TypeError
   \<and> fallbackRegexExtract (''import '' @ [CHR 0x22] @ ''./y'' @ [CHR 0x22]) = Some [''./y'']
   \<and> parseJsTsImports
        (\<lambda>fileName c. Inr (Node OtherKind [] None None []
           [Node ImportDeclaration [] (Some (Node StringLiteral ''./x'' None None [] [])) None [] [],
            Node CallExpression [] None None [] []]))
        (''import '' @ [CHR 0x22] @ ''./y'' @ [CHR 0x22]) ''a.ts'' = Some [''./y'']
   \<and> parseJsTsImports (\<lambda>fileName c. Inl (Thrown ''syntax''))
        (''import '' @ [CHR 0x22] @ ''./y'' @ [CHR 0x22]) ''a.ts'' = Some [''./y'']"
proof -
  let ?tree = "Node OtherKind [] None None []
        [Node ImportDeclaration [] (Some (Node StringLiteral ''./x'' None None [] [])) None [] [],
         Node CallExpression [] None None [] []]"
  let ?c = "''import '' @ [CHR 0x22] @ ''./y'' @ [CHR 0x22]"
  have v: "visit ?tree [] = Inl TypeError" by code_simp
  have f: "fallbackRegexExtract ?c = Some [''./y'']" by code_simp
  from parseJsTsImports_never_throws[of "\<lambda>fileName c. Inr ?tree" ?c "''a.ts''"] v f
  have 1: "parseJsTsImports (\<lambda>fileName c. Inr ?tree) ?c ''a.ts'' = Some [''./y'']" by auto
  from parseJsTsImports_never_throws[of "\<lambda>fileName c. Inl (Thrown ''syntax'')" ?c "''a.ts''"] f
  have 2: "parseJsTsImports (\<lambda>fileName c. Inl (Thrown ''syntax'')) ?c ''a.ts'' = Some [''./y'']" by auto
  from v f 1 2 show ?thesis by blast
qed

section \<open>Claims about the path resolver\<close>

text \<open>
  C3. For every source id, every raw import that begins with a dot and every set of known
  ids, relative resolution computes the base path from the source's segments without the
  last one, folded with the import's segments (\<open>.\<close> skipped, \<open>..\<close> pops one segment and
  does nothing on the empty stack, any other segment pushed), and returns the first of
  base, base.ts, base.tsx, base.js, base.jsx, base/index.ts, base/index.tsx, in this
  order, that is a known id.
\<close>

theorem relative_resolution:
  "startsWith rawImport ''.'' \<Longrightarrow>
     resolveRelative sourceId rawImport knownIds =
       find (\<lambda>c. c \<in> set knownIds) (spec_candidates (spec_base sourceId rawImport))
     \<and> (\<forall>t. find (\<lambda>c. c \<in> set knownIds) (spec_candidates (spec_base sourceId rawImport)) = Some t
          \<longrightarrow> resolveImport sourceId rawImport knownIds = Some t)"
  by (simp add: resolveRelative_spec resolveImport_def)

theorem relative_resolution_witness:
  "startsWith ''../../c'' ''.''
   \<and> spec_base ''src/a.ts'' ''../../c'' = ''c''
   \<and> resolveImport ''src/a.ts'' ''../../c'' [''c/index.ts'', ''c.js'', ''c.tsx''] = Some ''c.tsx''"
proof -
  have s: "startsWith ''../../c'' ''.''" by code_simp
  have b: "spec_base ''src/a.ts'' ''../../c'' = ''c''" by code_simp
  have f: "find (\<lambda>c. c \<in> set [''c/index.ts'', ''c.js'', ''c.tsx''])
             (spec_candidates (spec_base ''src/a.ts'' ''../../c'')) = Some ''c.tsx''"
    by code_simp
  from relative_resolution[OF s, of "''src/a.ts''" "[''c/index.ts'', ''c.js'', ''c.tsx'']"] f
  have "resolveImport ''src/a.ts'' ''../../c'' [''c/index.ts'', ''c.js'', ''c.tsx''] = Some ''c.tsx''"
    by blast
  with s b show ?thesis by blast
qed

text \<open>
  C5. For every raw import that fails the relative strategy and the exact match: if its
  last segment is not empty, the resolver scans the known ids in their order of insertion
  and returns the first id whose extension-stripped form ends with the raw import or with
  a slash followed by the raw import; if its last segment is empty, resolution fails. The
  extension-stripped form the source computes with its pattern is the one the
  specification words (\<open>js_replace_ext\<close>), and the set of known ids the builder passes
  lists the file ids in the order of their first occurrence
  (\<open>new_Set_first_occurrences\<close>).
\<close>

theorem basename_fallback:
  assumes "resolveRelative sourceId rawImport knownIds = None"
    and "rawImport \<notin> set knownIds"
  shows "(last (js_split CHR ''/'' rawImport) \<noteq> [] \<longrightarrow>
            resolveImport sourceId rawImport knownIds = find (spec_basename_hit rawImport) knownIds)
       \<and> (last (js_split CHR ''/'' rawImport) = [] \<longrightarrow>
            resolveImport sourceId rawImport knownIds = None)"
  using assms by (simp add: resolveImport_def has_def basename_match_find)

theorem basename_fallback_witness:
  "resolveImport ''src/a.ts'' ''components/Button''
     [''src/a.ts'', ''lib/components/Button.jsx'', ''src/components/Button.tsx'']
     = Some ''lib/components/Button.jsx''
   \<and> spec_strip_ext ''x/components/.ts'' = ''x/components/''
   \<and> resolveImport ''src/a.ts'' ''components/'' [''x/components/.ts''] = None"
proof -
  let ?K = "[''src/a.ts'', ''lib/components/Button.jsx'', ''src/components/Button.tsx'']"
  have r: "resolveRelative ''src/a.ts'' ''components/Button'' ?K = None" by code_simp
  have n: "''components/Button'' \<notin> set ?K" by simp
  have l: "last (js_split CHR ''/'' ''components/Button'') \<noteq> []" by code_simp
  have f: "find (spec_basename_hit ''components/Button'') ?K = Some ''lib/components/Button.jsx''"
    by code_simp
  from basename_fallback[OF r n] l f
  have 1: "resolveImport ''src/a.ts'' ''components/Button'' ?K = Some ''lib/components/Button.jsx''"
    by simp
  have r': "resolveRelative ''src/a.ts'' ''components/'' [''x/components/.ts''] = None" by code_simp
  have n': "''components/'' \<notin> set [''x/components/.ts'']" by simp
  have l': "last (js_split CHR ''/'' ''components/'') = []" by code_simp
  from basename_fallback[OF r' n'] l'
  have 2: "resolveImport ''src/a.ts'' ''components/'' [''x/components/.ts''] = None" by simp
  have 3: "spec_strip_ext ''x/components/.ts'' = ''x/components/''" by code_simp
  from 1 2 3 show ?thesis by blast
qed

text \<open>
  C7, as stated: for every set of known ids, resolving \<open>./a/../b\<close> from \<open>x/y.ts\<close>
  gives the same result as resolving \<open>./b\<close> from \<open>x/y.ts\<close>. This fails: the exact
  match and the basename fallback work on the raw import string, so with the single known
  id \<open>./b.ts\<close> the import \<open>./b\<close> resolves to it and \<open>./a/../b\<close> resolves to nothing.
\<close>

theorem normalization_counterexample:
  "\<not> (\<forall>K. resolveImport ''x/y.ts'' ''./a/../b'' K = resolveImport ''x/y.ts'' ''./b'' K)"
proof
  assume a: "\<forall>K. resolveImport ''x/y.ts'' ''./a/../b'' K = resolveImport ''x/y.ts'' ''./b'' K"
  have 1: "resolveImport ''x/y.ts'' ''./a/../b'' [''./b.ts''] = None" by code_simp
  have 2: "resolveImport ''x/y.ts'' ''./b'' [''./b.ts''] = Some ''./b.ts''" by code_simp
  from a have "resolveImport ''x/y.ts'' ''./a/../b'' [''./b.ts'']
                = resolveImport ''x/y.ts'' ''./b'' [''./b.ts'']" by blast
  with 1 2 show False by simp
qed

text \<open>
  C7, amended: for every set of known ids, the relative strategy gives the same outcome
  for \<open>./a/../b\<close> and \<open>./b\<close> from \<open>x/y.ts\<close> (both have the base path \<open>x/b\<close>); hence
  the two imports resolve to the same target whenever one of the seven candidates of
  \<open>x/b\<close> is known, and they resolve alike as well when no known id's extension-stripped
  form ends with \<open>./b\<close>.
\<close>

theorem normalization_relative:
  "resolveRelative ''x/y.ts'' ''./a/../b'' K = resolveRelative ''x/y.ts'' ''./b'' K
   \<and> ((\<exists>c \<in> set (spec_candidates ''x/b''). c \<in> set K)
        \<or> (\<forall>f \<in> set K. \<not> endsWith (spec_strip_ext f) ''./b'')
       \<longrightarrow> resolveImport ''x/y.ts'' ''./a/../b'' K = resolveImport ''x/y.ts'' ''./b'' K)"
proof -
  let ?A = "''./a/../b''" and ?B = "''./b''" and ?src = "''x/y.ts''"
  have sa: "startsWith ?A ''.''" by code_simp
  have sb: "startsWith ?B ''.''" by code_simp
  have ba: "spec_base ?src ?A = ''x/b''" by code_simp
  have bb: "spec_base ?src ?B = ''x/b''" by code_simp
  have ra: "resolveRelative ?src ?A K = find (\<lambda>c. c \<in> set K) (spec_candidates ''x/b'')"
    using resolveRelative_spec[OF sa, of ?src K] ba by simp
  have rb: "resolveRelative ?src ?B K = find (\<lambda>c. c \<in> set K) (spec_candidates ''x/b'')"
    using resolveRelative_spec[OF sb, of ?src K] bb by simp
  have rel: "resolveRelative ?src ?A K = resolveRelative ?src ?B K" using ra rb by simp
  have found: "resolveImport ?src ?A K = resolveImport ?src ?B K"
    if "\<exists>c \<in> set (spec_candidates ''x/b''). c \<in> set K"
  proof -
    from that have "find (\<lambda>c. c \<in> set K) (spec_candidates ''x/b'') \<noteq> None"
      by (simp only: find_None_iff) blast
    then obtain t where "find (\<lambda>c. c \<in> set K) (spec_candidates ''x/b'') = Some t" by blast
    with ra rb show ?thesis by (simp add: resolveImport_def)
  qed
  have neither: "resolveImport ?src ?A K = resolveImport ?src ?B K"
    if no: "\<forall>f \<in> set K. \<not> endsWith (spec_strip_ext f) ?B"
      and nf: "\<not> (\<exists>c \<in> set (spec_candidates ''x/b''). c \<in> set K)"
  proof -
    from nf have none: "find (\<lambda>c. c \<in> set K) (spec_candidates ''x/b'') = None"
      by (simp only: find_None_iff) blast
    have ab: "endsWith ?A ?B" by code_simp
    have stripA: "spec_strip_ext ?A = ?A" by code_simp
    have stripB: "spec_strip_ext ?B = ?B" by code_simp
    have bb': "endsWith ?B ?B" by code_simp
    have nA: "?A \<notin> set K" using no stripA ab by metis
    have nB: "?B \<notin> set K" using no stripB bb' by metis
    have "\<forall>f \<in> set K. \<not> endsWith (spec_strip_ext f) ?A" using no ab endsWith_trans by blast
    then have mA: "basename_match ?A K = None" by (rule basename_match_None)
    have mB: "basename_match ?B K = None" using no by (rule basename_match_None)
    show ?thesis using ra rb none nA nB mA mB by (simp add: resolveImport_def has_def)
  qed
  from rel found neither show ?thesis by blast
qed

theorem normalization_relative_witness:
  "resolveImport ''x/y.ts'' ''./a/../b'' [''x/y.ts'', ''x/b.ts''] = Some ''x/b.ts''
   \<and> resolveImport ''x/y.ts'' ''./b'' [''x/y.ts'', ''x/b.ts''] = Some ''x/b.ts''
   \<and> resolveImport ''x/y.ts'' ''./a/../b'' [''x/y.ts'', ''z.ts''] = None
   \<and> resolveImport ''x/y.ts'' ''./b'' [''x/y.ts'', ''z.ts''] = None"
proof -
  have c: "\<exists>c \<in> set (spec_candidates ''x/b''). c \<in> set [''x/y.ts'', ''x/b.ts'']"
    by (simp add: spec_candidates_def)
  have 1: "resolveImport ''x/y.ts'' ''./b'' [''x/y.ts'', ''x/b.ts''] = Some ''x/b.ts''" by code_simp
  from normalization_relative[of "[''x/y.ts'', ''x/b.ts'']"] c
  have 2: "resolveImport ''x/y.ts'' ''./a/../b'' [''x/y.ts'', ''x/b.ts'']
            = resolveImport ''x/y.ts'' ''./b'' [''x/y.ts'', ''x/b.ts'']" by blast
  have s1: "spec_strip_ext ''x/y.ts'' = ''x/y''" by code_simp
  have s2: "spec_strip_ext ''z.ts'' = ''z''" by code_simp
  have e1: "\<not> endsWith ''x/y'' ''./b''" by code_simp
  have e2: "\<not> endsWith ''z'' ''./b''" by code_simp
  have n: "\<forall>f \<in> set [''x/y.ts'', ''z.ts'']. \<not> endsWith (spec_strip_ext f) ''./b''"
    using s1 s2 e1 e2 by simp
  have 3: "resolveImport ''x/y.ts'' ''./b'' [''x/y.ts'', ''z.ts''] = None" by code_simp
  from normalization_relative[of "[''x/y.ts'', ''z.ts'']"] n
  have 4: "resolveImport ''x/y.ts'' ''./a/../b'' [''x/y.ts'', ''z.ts'']
            = resolveImport ''x/y.ts'' ''./b'' [''x/y.ts'', ''z.ts'']" by blast
  from 1 2 3 4 show ?thesis by simp
qed

section \<open>Claims about the graph builder\<close>

text \<open>
  C2. For every input file list the builder returns a graph whose node list has exactly
  one node per input file, in input order, and whose node ids are the file ids. The id of
  a file, in the words of the specification, is its full virtual path: the source keeps it
  in the field \<open>name\<close>, which is the field the builder copies into the node's \<open>id\<close>.
\<close>

theorem graph_nodes_are_files:
  "\<exists>g. generateDependencyGraph p files = Some g
       \<and> length (nodes g) = length files
       \<and> map node_id (nodes g) = map name files"
  by (simp add: generateDependencyGraph_eq comp_def)

text \<open>
  C1. For every input file list, every edge of the returned graph has a source and a
  target that are ids of nodes of the same graph, and every edge comes from an import,
  extracted from a code file, whose resolution succeeded with the edge's target: no edge is
  emitted for an import that fails resolution.
\<close>

theorem graph_edges_resolved:
  "\<exists>g. generateDependencyGraph p files = Some g \<and>
     (\<forall>l \<in> set (links g).
        source l \<in> set (map node_id (nodes g)) \<and> target l \<in> set (map node_id (nodes g)) \<and>
        (\<exists>f \<in> set files. \<exists>imps. type f = File \<and> extract_imports p f = Some imps \<and>
           (\<exists>imp \<in> set imps. source l = name f \<and>
              resolveImport (name f) imp (new_Set (map name files)) = Some (target l))))"
proof -
  let ?K = "new_Set (map name files)"
  let ?g = "\<lparr>nodes = map (\<lambda>f. \<lparr>node_id = name f, node_name = name f, node_type = type f, val = 1\<rparr>) files,
           links = concat (map (file_links p ?K) files)\<rparr>"
  have ids: "map node_id (nodes ?g) = map name files" by (simp add: comp_def)
  have "\<forall>l \<in> set (links ?g).
        source l \<in> set (map node_id (nodes ?g)) \<and> target l \<in> set (map node_id (nodes ?g)) \<and>
        (\<exists>f \<in> set files. \<exists>imps. type f = File \<and> extract_imports p f = Some imps \<and>
           (\<exists>imp \<in> set imps. source l = name f \<and>
              resolveImport (name f) imp ?K = Some (target l)))"
  proof
    fix l assume "l \<in> set (links ?g)"
    then obtain f where f: "f \<in> set files" and l: "l \<in> set (file_links p ?K f)" by auto
    from file_links_mem[OF l] obtain imps imp where
      t: "type f = File" and e: "extract_imports p f = Some imps" and i: "imp \<in> set imps"
      and s: "source l = name f" and r: "resolveImport (name f) imp ?K = Some (target l)" by blast
    from resolveImport_in[OF r] have "target l \<in> set (map name files)" by (simp add: set_new_Set)
    moreover have "source l \<in> set (map name files)" using s f by simp
    ultimately show "source l \<in> set (map node_id (nodes ?g)) \<and> target l \<in> set (map node_id (nodes ?g)) \<and>
        (\<exists>f \<in> set files. \<exists>imps. type f = File \<and> extract_imports p f = Some imps \<and>
           (\<exists>imp \<in> set imps. source l = name f \<and>
              resolveImport (name f) imp ?K = Some (target l)))"
      unfolding ids using f t e i s r by blast
  qed
  then show ?thesis using generateDependencyGraph_eq[of p files] by blast
qed

theorem graph_edges_resolved_witness:
  "generateDependencyGraph (\<lambda>fileName c. Inl (Thrown []))
     [\<lparr>file_id = ''1'', name = ''a.py'', type = File,
         content = ''import b'' @ [CHR 0x0A] @ ''import zzz''\<rparr>,
      \<lparr>file_id = ''2'', name = ''b.py'', type = File, content = []\<rparr>]
   = Some \<lparr>nodes = [\<lparr>node_id = ''a.py'', node_name = ''a.py'', node_type = File, val = 1\<rparr>,
                    \<lparr>node_id = ''b.py'', node_name = ''b.py'', node_type = File, val = 1\<rparr>],
            links = [\<lparr>source = ''a.py'', target = ''b.py''\<rparr>]\<rparr>
   \<and> resolveImport ''a.py'' ''b'' [''a.py'', ''b.py''] = Some ''b.py''
   \<and> resolveImport ''a.py'' ''zzz'' [''a.py'', ''b.py''] = None
   \<and> ''a.py'' \<in> set [''a.py'', ''b.py''] \<and> ''b.py'' \<in> set [''a.py'', ''b.py'']"
proof -
  let ?p = "\<lambda>fileName c. Inl (Thrown []) :: js_error + node"
  let ?files = "[\<lparr>file_id = ''1'', name = ''a.py'', type = File,
         content = ''import b'' @ [CHR 0x0A] @ ''import zzz''\<rparr>,
      \<lparr>file_id = ''2'', name = ''b.py'', type = File, content = []\<rparr>]"
  let ?g = "\<lparr>nodes = [\<lparr>node_id = ''a.py'', node_name = ''a.py'', node_type = File, val = 1\<rparr>,
                    \<lparr>node_id = ''b.py'', node_name = ''b.py'', node_type = File, val = 1\<rparr>],
            links = [\<lparr>source = ''a.py'', target = ''b.py''\<rparr>]\<rparr>"
  have g: "generateDependencyGraph ?p ?files = Some ?g" by code_simp
  have r1: "resolveImport ''a.py'' ''b'' [''a.py'', ''b.py''] = Some ''b.py''" by code_simp
  have r2: "resolveImport ''a.py'' ''zzz'' [''a.py'', ''b.py''] = None" by code_simp
  from graph_edges_resolved[of ?p ?files] g
  have "\<forall>l \<in> set (links ?g).
          source l \<in> set (map node_id (nodes ?g)) \<and> target l \<in> set (map node_id (nodes ?g))"
    by auto
  then have "''a.py'' \<in> set [''a.py'', ''b.py''] \<and> ''b.py'' \<in> set [''a.py'', ''b.py'']"
    by simp
  with g r1 r2 show ?thesis by blast
qed

text \<open>
  C8. If a code file issues the same resolvable import more than once, one edge per
  occurrence appears, and the edges follow the order of the files and, within a file, the
  order of extraction. The builder orders the edges as stated
  (\<open>generateDependencyGraph_eq\<close>, \<open>link_imports_eq\<close>) and repeats an edge whose
  target is not the empty string (\<open>link_imports_count\<close>), but its test \<open>if (target)\<close>
  is false for the empty string as it is for \<open>undefined\<close>: an import that resolves to a
  file whose id is empty gets no edge. Below, the file \<open>a.py\<close> issues the import \<open>.\<close>
  twice, the resolver returns the known (empty) id for it, and the graph has no edge.
\<close>

theorem empty_target_dropped:
  "extract_imports p \<lparr>file_id = ''2'', name = ''a.py'', type = File,
       content = ''import .'' @ [CHR 0x0A] @ ''import .''\<rparr> = Some [''.'', ''.'']
   \<and> resolveImport ''a.py'' ''.'' (new_Set [[], ''a.py'']) = Some []
   \<and> generateDependencyGraph p
        [\<lparr>file_id = ''1'', name = [], type = File, content = []\<rparr>,
         \<lparr>file_id = ''2'', name = ''a.py'', type = File,
            content = ''import .'' @ [CHR 0x0A] @ ''import .''\<rparr>]
      = Some \<lparr>nodes = [\<lparr>node_id = [], node_name = [], node_type = File, val = 1\<rparr>,
                       \<lparr>node_id = ''a.py'', node_name = ''a.py'', node_type = File, val = 1\<rparr>],
               links = []\<rparr>"
  by code_simp

text \<open>
  C9. The resolver does not exclude the importing file as a target: the file
  \<open>src/a.ts\<close> whose content is the statement \<open>import "./a"\<close> gets an edge from itself
  to itself, both when the compiler library returns the tree of that statement and when
  it throws and the regex extraction takes over.
\<close>

theorem self_import_edge:
  "generateDependencyGraph
     (\<lambda>fileName c. Inr (Node OtherKind [] None None []
        [Node ImportDeclaration [] (Some (Node StringLiteral ''./a'' None None [] [])) None []
           [Node StringLiteral ''./a'' None None [] []]]))
     [\<lparr>file_id = ''1'', name = ''src/a.ts'', type = File,
         content = ''import '' @ [CHR 0x22] @ ''./a'' @ [CHR 0x22]\<rparr>]
   = Some \<lparr>nodes = [\<lparr>node_id = ''src/a.ts'', node_name = ''src/a.ts'', node_type = File, val = 1\<rparr>],
            links = [\<lparr>source = ''src/a.ts'', target = ''src/a.ts''\<rparr>]\<rparr>
   \<and> generateDependencyGraph (\<lambda>fileName c. Inl (Thrown ''syntax''))
     [\<lparr>file_id = ''1'', name = ''src/a.ts'', type = File,
         content = ''import '' @ [CHR 0x22] @ ''./a'' @ [CHR 0x22]\<rparr>]
   = Some \<lparr>nodes = [\<lparr>node_id = ''src/a.ts'', node_name = ''src/a.ts'', node_type = File, val = 1\<rparr>],
            links = [\<lparr>source = ''src/a.ts'', target = ''src/a.ts''\<rparr>]\<rparr>
   \<and> resolveImport ''src/a.ts'' ''./a'' [''src/a.ts''] = Some ''src/a.ts''"
  by code_simp

end
